theory Spec2Isabelle
  imports Main
begin

section \<open>Password strength evaluation and bounded password history\<close>

text \<open>
  A shallow embedding of \<^verbatim>\<open>password_utils.py\<close> (the evaluator, the regex validator,
  the JSON-backed history and link stores) and of the save handler of \<^verbatim>\<open>main.py\<close>.

  A Python \<^verbatim>\<open>str\<close> is a sequence of Unicode code points, and \<^verbatim>\<open>len\<close> counts code
  points, so a string is modelled as a list of code points.  Literals of the source
  that are plain ASCII are written through \<open>str_of\<close>.
\<close>

subsection \<open>Strings and character classes\<close>

type_synonym codepoint = nat
type_synonym pystr = "codepoint list"

definition str_of :: "string \<Rightarrow> pystr" where
  "str_of s = map of_char s"

text \<open>\<^verbatim>\<open>[A-Z]\<close> and \<^verbatim>\<open>[a-z]\<close>: ranges of code points.\<close>

definition upper_class :: "codepoint \<Rightarrow> bool" where
  "upper_class c = (65 \<le> c \<and> c \<le> 90)"

definition lower_class :: "codepoint \<Rightarrow> bool" where
  "lower_class c = (97 \<le> c \<and> c \<le> 122)"

text \<open>
  \<^verbatim>\<open>\d\<close> in a \<^verbatim>\<open>str\<close> pattern matches every character of Unicode category Nd, not
  only \<^verbatim>\<open>0-9\<close>.  The decimal digits of Unicode lie in runs; the table lists the first
  code point and the length of each run (Unicode 14.0, the database of CPython 3.11).
\<close>

definition unicode_Nd_runs :: "(codepoint \<times> nat) list" where
  "unicode_Nd_runs =
    [(0x30, 10), (0x660, 10), (0x6F0, 10), (0x7C0, 10), (0x966, 10), (0x9E6, 10),
     (0xA66, 10), (0xAE6, 10), (0xB66, 10), (0xBE6, 10), (0xC66, 10), (0xCE6, 10),
     (0xD66, 10), (0xDE6, 10), (0xE50, 10), (0xED0, 10), (0xF20, 10), (0x1040, 10),
     (0x1090, 10), (0x17E0, 10), (0x1810, 10), (0x1946, 10), (0x19D0, 10), (0x1A80, 10),
     (0x1A90, 10), (0x1B50, 10), (0x1BB0, 10), (0x1C40, 10), (0x1C50, 10), (0xA620, 10),
     (0xA8D0, 10), (0xA900, 10), (0xA9D0, 10), (0xA9F0, 10), (0xAA50, 10), (0xABF0, 10),
     (0xFF10, 10), (0x104A0, 10), (0x10D30, 10), (0x11066, 10), (0x110F0, 10),
     (0x11136, 10), (0x111D0, 10), (0x112F0, 10), (0x11450, 10), (0x114D0, 10),
     (0x11650, 10), (0x116C0, 10), (0x11730, 10), (0x118E0, 10), (0x11950, 10),
     (0x11C50, 10), (0x11D50, 10), (0x11DA0, 10), (0x16A60, 10), (0x16AC0, 10),
     (0x16B50, 10), (0x1D7CE, 50), (0x1E140, 10), (0x1E2F0, 10), (0x1E950, 10),
     (0x1FBF0, 10)]"

definition digit_class :: "codepoint \<Rightarrow> bool" where
  "digit_class c = list_ex (\<lambda>(start, n). start \<le> c \<and> c < start + n) unicode_Nd_runs"

text \<open>\<^verbatim>\<open>[!@#$%^&*]\<close>, the special characters of the evaluator.\<close>

definition evaluator_special_class :: "codepoint \<Rightarrow> bool" where
  "evaluator_special_class c = (c \<in> set (str_of ''!@#$%^&*''))"

text \<open>\<^verbatim>\<open>[@$!%*?&]\<close>, the special characters of the validator.\<close>

definition validator_special_class :: "codepoint \<Rightarrow> bool" where
  "validator_special_class c = (c \<in> set (str_of ''@$!%*?&''))"

text \<open>\<^verbatim>\<open>[A-Za-z]\<close> and \<^verbatim>\<open>[A-Za-z\d@$!%*?&]\<close>.\<close>

definition letter_class :: "codepoint \<Rightarrow> bool" where
  "letter_class c = (upper_class c \<or> lower_class c)"

definition validator_class :: "codepoint \<Rightarrow> bool" where
  "validator_class c = (upper_class c \<or> lower_class c \<or> digit_class c \<or> validator_special_class c)"

text \<open>\<^verbatim>\<open>.\<close> without the DOTALL flag: every character but the line feed.\<close>

definition dot_class :: "codepoint \<Rightarrow> bool" where
  "dot_class c = (c \<noteq> 10)"

subsection \<open>The regular expressions of the source\<close>

text \<open>
  The patterns of the source use five constructs: one character of a class, a greedy
  repetition \<^verbatim>\<open>X{n,}\<close> of a one-character class (\<^verbatim>\<open>.*\<close> is \<^verbatim>\<open>.{0,}\<close>), a lookahead
  \<^verbatim>\<open>(?=...)\<close>, and the anchors \<^verbatim>\<open>^\<close> and \<^verbatim>\<open>$\<close>.  A pattern is the sequence of its items.
\<close>

datatype re =
    One "codepoint \<Rightarrow> bool"
  | Rep nat "codepoint \<Rightarrow> bool"
  | Look "re list"
  | Bos
  | Eos

text \<open>The number of consecutive characters of class \<open>P\<close> from position \<open>i\<close> on.\<close>

definition run :: "(codepoint \<Rightarrow> bool) \<Rightarrow> pystr \<Rightarrow> nat \<Rightarrow> nat" where
  "run P s i = length (takeWhile P (drop i s))"

text \<open>
  \<open>re_match_at rs s i\<close>: the items \<open>rs\<close> match \<open>s\<close> from position \<open>i\<close>, as the
  backtracking matcher of \<^verbatim>\<open>re\<close> decides it.  A repetition tries the longest run first
  and gives characters back down to its minimum.  Without the MULTILINE flag \<^verbatim>\<open>^\<close>
  matches at position 0 only, and \<^verbatim>\<open>$\<close> matches at the end of the string and also
  just before a line feed that is the last character.
\<close>

fun re_match_at :: "re list \<Rightarrow> pystr \<Rightarrow> nat \<Rightarrow> bool" where
  "re_match_at [] s i = True"
| "re_match_at (One P # rs) s i = (i < length s \<and> P (s ! i) \<and> re_match_at rs s (i + 1))"
| "re_match_at (Rep n P # rs) s i =
     list_ex (\<lambda>k. re_match_at rs s (i + k)) (rev [n ..< run P s i + 1])"
| "re_match_at (Look ls # rs) s i = (re_match_at ls s i \<and> re_match_at rs s i)"
| "re_match_at (Bos # rs) s i = (i = 0 \<and> re_match_at rs s i)"
| "re_match_at (Eos # rs) s i =
     ((i = length s \<or> (i + 1 = length s \<and> s ! i = 10)) \<and> re_match_at rs s i)"

text \<open>\<^verbatim>\<open>bool(pattern.match(s))\<close> tries position 0; \<^verbatim>\<open>re.search\<close> tries every position.\<close>

definition re_match :: "re list \<Rightarrow> pystr \<Rightarrow> bool" where
  "re_match rs s = re_match_at rs s 0"

definition re_search :: "re list \<Rightarrow> pystr \<Rightarrow> bool" where
  "re_search rs s = list_ex (re_match_at rs s) [0 ..< length s + 1]"

subsection \<open>The validator\<close>

text \<open>
  \<^verbatim>\<open>password_regex_pattern = re.compile(
      r"^(?=.*[A-Za-z])(?=.*\d)(?=.*[@$!%*?&])[A-Za-z\d@$!%*?&]{8,}$")\<close>
\<close>

definition password_regex_pattern :: "re list" where
  "password_regex_pattern =
    [Bos,
     Look [Rep 0 dot_class, One letter_class],
     Look [Rep 0 dot_class, One digit_class],
     Look [Rep 0 dot_class, One validator_special_class],
     Rep 8 validator_class,
     Eos]"

definition password_validator :: "pystr \<Rightarrow> bool" where
  "password_validator password = re_match password_regex_pattern password"

subsection \<open>The evaluator\<close>

text \<open>
  The four feedback messages start with U+274C (a cross mark), the success messages of
  the stores with U+2705 (a check mark).
\<close>

definition cross_mark :: codepoint where
  "cross_mark = 0x274C"

definition check_mark :: codepoint where
  "check_mark = 0x2705"

definition length_feedback :: pystr where
  "length_feedback = cross_mark # str_of '' Password must be at least 8 characters long.''"

definition case_feedback :: pystr where
  "case_feedback = cross_mark # str_of '' Include both uppercase and lowercase letters.''"

definition digit_feedback :: pystr where
  "digit_feedback = cross_mark # str_of '' Add at least one number (0-9).''"

definition special_feedback :: pystr where
  "special_feedback =
     cross_mark # str_of '' Include at least one special character (!@#$%^&*).''"

definition password_strength_ranking :: "pystr list" where
  "password_strength_ranking =
     [str_of ''Weak'', str_of ''Moderate'', str_of ''Good'', str_of ''Strong'',
      str_of ''Excellent'']"

record evaluation =
  score :: int
  rank :: pystr
  feedback :: "pystr list"

text \<open>
  The four checks of \<^verbatim>\<open>password_evaluator\<close>, each a step on the pair of the running
  score and the feedback list, in the order of the source.
\<close>

definition check_length :: "pystr \<Rightarrow> int \<times> pystr list \<Rightarrow> int \<times> pystr list" where
  "check_length password st =
     (case st of (password_strength_score, password_strength_feedback) \<Rightarrow>
        if int (length password) \<ge> 8
        then (password_strength_score + 1, password_strength_feedback)
        else (password_strength_score, password_strength_feedback @ [length_feedback]))"

definition check_case :: "pystr \<Rightarrow> int \<times> pystr list \<Rightarrow> int \<times> pystr list" where
  "check_case password st =
     (case st of (password_strength_score, password_strength_feedback) \<Rightarrow>
        if re_search [One upper_class] password \<and> re_search [One lower_class] password
        then (password_strength_score + 1, password_strength_feedback)
        else (password_strength_score, password_strength_feedback @ [case_feedback]))"

definition check_digit :: "pystr \<Rightarrow> int \<times> pystr list \<Rightarrow> int \<times> pystr list" where
  "check_digit password st =
     (case st of (password_strength_score, password_strength_feedback) \<Rightarrow>
        if re_search [One digit_class] password
        then (password_strength_score + 1, password_strength_feedback)
        else (password_strength_score, password_strength_feedback @ [digit_feedback]))"

definition check_special :: "pystr \<Rightarrow> int \<times> pystr list \<Rightarrow> int \<times> pystr list" where
  "check_special password st =
     (case st of (password_strength_score, password_strength_feedback) \<Rightarrow>
        if re_search [One evaluator_special_class] password
        then (password_strength_score + 1, password_strength_feedback)
        else (password_strength_score, password_strength_feedback @ [special_feedback]))"

definition password_evaluator :: "pystr \<Rightarrow> evaluation" where
  "password_evaluator password =
     (case check_special password (check_digit password (check_case password
             (check_length password (0, [])))) of
        (password_strength_score, password_strength_feedback) \<Rightarrow>
          \<lparr> score = password_strength_score,
            rank = password_strength_ranking ! nat (min password_strength_score 4),
            feedback = password_strength_feedback \<rparr>)"

subsection \<open>The evaluator as the specification words it\<close>

text \<open>
  The four predicates in the words of the specification: at least 8 characters; an
  uppercase and a lowercase letter; a decimal digit; a character of the set
  \<^verbatim>\<open>{!,@,#,$,%,^,&,*}\<close>.  Letters and digits are read the way the messages of the source
  read them (\<^verbatim>\<open>0-9\<close>): the 26 capital letters, the 26 small letters and the 10 digits of
  ASCII, each class written out character by character.
\<close>

definition claim_uppercase :: "codepoint \<Rightarrow> bool" where
  "claim_uppercase c = (c \<in> set (str_of ''ABCDEFGHIJKLMNOPQRSTUVWXYZ''))"

definition claim_lowercase :: "codepoint \<Rightarrow> bool" where
  "claim_lowercase c = (c \<in> set (str_of ''abcdefghijklmnopqrstuvwxyz''))"

definition claim_decimal_digit :: "codepoint \<Rightarrow> bool" where
  "claim_decimal_digit c = (c \<in> set (str_of ''0123456789''))"

definition claim_special :: "codepoint \<Rightarrow> bool" where
  "claim_special c = (c \<in> set [33, 64, 35, 36, 37, 94, 38, 42])"

definition claim_predicates :: "pystr \<Rightarrow> bool list" where
  "claim_predicates p =
     [8 \<le> length p,
      list_ex claim_uppercase p \<and> list_ex claim_lowercase p,
      list_ex claim_decimal_digit p,
      list_ex claim_special p]"

text \<open>
  The same four predicates with the third one widened to what the source counts: a
  character of the Unicode category Nd, in any script.  The letters stay the 52 letters
  of ASCII.
\<close>

definition unicode_decimal_digit :: "codepoint \<Rightarrow> bool" where
  "unicode_decimal_digit c =
     list_ex (\<lambda>run. fst run \<le> c \<and> c < fst run + snd run) unicode_Nd_runs"

definition exact_predicates :: "pystr \<Rightarrow> bool list" where
  "exact_predicates p =
     [8 \<le> length p,
      list_ex claim_uppercase p \<and> list_ex claim_lowercase p,
      list_ex unicode_decimal_digit p,
      list_ex claim_special p]"

text \<open>The messages for the failed predicates, in the order of the predicates.\<close>

definition spec_messages :: "pystr list" where
  "spec_messages = [length_feedback, case_feedback, digit_feedback, special_feedback]"

section \<open>JSON\<close>

text \<open>
  The two stores keep their records in files, which \<^verbatim>\<open>data_saver\<close> writes with
  \<^verbatim>\<open>json.dump(data, file, indent=4)\<close> and \<^verbatim>\<open>data_loader\<close> reads with \<^verbatim>\<open>json.load(file)\<close>.
  What is written and what is read back is modelled character by character, after the
  module \<^verbatim>\<open>json\<close> of CPython 3.11.
\<close>

subsection \<open>Python values\<close>

text \<open>
  The values \<^verbatim>\<open>json.load\<close> can return, and among them the records of the stores.  A
  dictionary keeps its items in the order of insertion.  A floating-point number is
  kept as the text of its literal; the stores write none.
\<close>

datatype pyval =
    PNone
  | PBool bool
  | PInt int
  | PFloat pystr
  | PStr pystr
  | PList "pyval list"
  | PDict "(pystr \<times> pyval) list"

subsection \<open>Writing JSON\<close>

text \<open>
  \<^verbatim>\<open>json.dump\<close> with its default \<^verbatim>\<open>ensure_ascii=True\<close> writes a string between double
  quotes, a character from the space to \<^verbatim>\<open>~\<close> as itself, except the double quote and the
  backslash, the other characters as escapes: the short escapes, \<^verbatim>\<open>\uXXXX\<close> with four
  lowercase hexadecimal digits, and for a character above U+FFFF the two escapes of
  its surrogate pair.
\<close>

definition hex_digit :: "nat \<Rightarrow> codepoint" where
  "hex_digit d = (if d < 10 then 48 + d else 87 + d)"

definition hex4 :: "nat \<Rightarrow> pystr" where
  "hex4 n =
     [hex_digit (n div 4096 mod 16), hex_digit (n div 256 mod 16),
      hex_digit (n div 16 mod 16), hex_digit (n mod 16)]"

definition u_escape :: "nat \<Rightarrow> pystr" where
  "u_escape n = 92 # 117 # hex4 n"

definition escape_char :: "codepoint \<Rightarrow> pystr" where
  "escape_char c =
     (if c = 34 then [92, 34]
      else if c = 92 then [92, 92]
      else if c = 10 then [92, 110]
      else if c = 13 then [92, 114]
      else if c = 9 then [92, 116]
      else if c = 8 then [92, 98]
      else if c = 12 then [92, 102]
      else if 32 \<le> c \<and> c \<le> 126 then [c]
      else if c < 0x10000 then u_escape c
      else u_escape (0xD800 + (c - 0x10000) div 1024 mod 1024)
           @ u_escape (0xDC00 + (c - 0x10000) mod 1024))"

definition encode_basestring_ascii :: "pystr \<Rightarrow> pystr" where
  "encode_basestring_ascii s = 34 # concat (map escape_char s) @ [34]"

fun nat_repr :: "nat \<Rightarrow> pystr" where
  "nat_repr n = (if n < 10 then [48 + n] else nat_repr (n div 10) @ [48 + n mod 10])"

declare nat_repr.simps [simp del]

definition int_repr :: "int \<Rightarrow> pystr" where
  "int_repr i = (if i < 0 then 45 # nat_repr (nat (- i)) else nat_repr (nat i))"

text \<open>
  With \<^verbatim>\<open>indent=4\<close> every item of a list or a dictionary that is not empty stands on a
  line of its own, after four spaces for each level of nesting; the items are
  separated by a comma, a key from its value by a colon and a space; the closing
  bracket stands on a line of its own at the level of the opening one.  \<open>iterencode\<close>
  is the text of a value at a level, \<open>iterencode_list\<close> and \<open>iterencode_dict\<close> the texts
  of the items after the first.
\<close>

definition newline_indent :: "nat \<Rightarrow> pystr" where
  "newline_indent level = 10 # replicate (4 * level) 32"

fun iterencode :: "nat \<Rightarrow> pyval \<Rightarrow> pystr"
and iterencode_list :: "nat \<Rightarrow> pyval list \<Rightarrow> pystr"
and iterencode_dict :: "nat \<Rightarrow> (pystr \<times> pyval) list \<Rightarrow> pystr"
where
  "iterencode level PNone = str_of ''null''"
| "iterencode level (PBool b) = (if b then str_of ''true'' else str_of ''false'')"
| "iterencode level (PInt i) = int_repr i"
| "iterencode level (PFloat lit) = lit"
| "iterencode level (PStr s) = encode_basestring_ascii s"
| "iterencode level (PList []) = str_of ''[]''"
| "iterencode level (PList (x # xs)) =
     91 # newline_indent (level + 1) @ iterencode (level + 1) x
        @ iterencode_list (level + 1) xs @ newline_indent level @ [93]"
| "iterencode level (PDict []) = str_of ''{}''"
| "iterencode level (PDict ((k, v) # kvs)) =
     123 # newline_indent (level + 1) @ encode_basestring_ascii k @ [58, 32]
         @ iterencode (level + 1) v
         @ iterencode_dict (level + 1) kvs @ newline_indent level @ [125]"
| "iterencode_list level [] = []"
| "iterencode_list level (x # xs) =
     44 # newline_indent level @ iterencode level x @ iterencode_list level xs"
| "iterencode_dict level [] = []"
| "iterencode_dict level ((k, v) # kvs) =
     44 # newline_indent level @ encode_basestring_ascii k @ [58, 32]
        @ iterencode level v @ iterencode_dict level kvs"

definition json_dumps :: "pyval \<Rightarrow> pystr" where
  "json_dumps data = iterencode 0 data"

subsection \<open>Reading JSON\<close>

text \<open>
  \<^verbatim>\<open>json.load\<close> skips white space, scans one value, skips white space and raises
  \<^verbatim>\<open>json.JSONDecodeError\<close> unless the text ends there, or when no value can be scanned.
  The scanner decides by the first character: a string, an object, an array, one of
  the five names, or a number.
\<close>

definition is_whitespace :: "codepoint \<Rightarrow> bool" where
  "is_whitespace c = (c = 32 \<or> c = 9 \<or> c = 10 \<or> c = 13)"

definition skip_whitespace :: "pystr \<Rightarrow> pystr" where
  "skip_whitespace cs = dropWhile is_whitespace cs"

definition is_digit :: "codepoint \<Rightarrow> bool" where
  "is_digit c = (48 \<le> c \<and> c \<le> 57)"

definition hex_value :: "codepoint \<Rightarrow> nat option" where
  "hex_value c =
     (if 48 \<le> c \<and> c \<le> 57 then Some (c - 48)
      else if 97 \<le> c \<and> c \<le> 102 then Some (c - 87)
      else if 65 \<le> c \<and> c \<le> 70 then Some (c - 55)
      else None)"

fun decode_hex4 :: "pystr \<Rightarrow> nat option" where
  "decode_hex4 (a # b # c # d # cs) =
     (case (hex_value a, hex_value b, hex_value c, hex_value d) of
        (Some x, Some y, Some z, Some w) \<Rightarrow> Some (((x * 16 + y) * 16 + z) * 16 + w)
      | _ \<Rightarrow> None)"
| "decode_hex4 cs = None"

definition is_high_surrogate :: "nat \<Rightarrow> bool" where
  "is_high_surrogate c = (0xD800 \<le> c \<and> c \<le> 0xDBFF)"

definition is_low_surrogate :: "nat \<Rightarrow> bool" where
  "is_low_surrogate c = (0xDC00 \<le> c \<and> c \<le> 0xDFFF)"

definition join_surrogates :: "nat \<Rightarrow> nat \<Rightarrow> codepoint" where
  "join_surrogates c c2 = 0x10000 + ((c mod 1024) * 1024 + c2 mod 1024)"

text \<open>The escape after a backslash: the character it denotes and the number of
  characters it takes after the backslash.\<close>

definition unescape :: "pystr \<Rightarrow> (codepoint \<times> nat) option" where
  "unescape cs =
     (case cs of
        [] \<Rightarrow> None
      | c # r \<Rightarrow>
          if c \<noteq> 117 then
            (if c = 34 then Some (34, 1)
             else if c = 92 then Some (92, 1)
             else if c = 47 then Some (47, 1)
             else if c = 98 then Some (8, 1)
             else if c = 102 then Some (12, 1)
             else if c = 110 then Some (10, 1)
             else if c = 114 then Some (13, 1)
             else if c = 116 then Some (9, 1)
             else None)
          else
            (case decode_hex4 r of
               None \<Rightarrow> None
             | Some u \<Rightarrow>
                 if is_high_surrogate u \<and> 6 \<le> length (drop 4 r)
                    \<and> drop 4 r ! 0 = 92 \<and> drop 4 r ! 1 = 117
                 then (case decode_hex4 (drop 6 r) of
                         None \<Rightarrow> None
                       | Some u2 \<Rightarrow>
                           if is_low_surrogate u2 then Some (join_surrogates u u2, 11)
                           else Some (u, 5))
                 else Some (u, 5)))"

text \<open>
  The string after its opening quote: the characters up to the closing quote and the
  rest of the text.  A control character that is not escaped is refused.
\<close>

function scanstring :: "pystr \<Rightarrow> (pystr \<times> pystr) option" where
  "scanstring cs =
     (case cs of
        [] \<Rightarrow> None
      | c # r \<Rightarrow>
          if c = 34 then Some ([], r)
          else if c = 92 then
            (case unescape r of
               None \<Rightarrow> None
             | Some (u, n) \<Rightarrow>
                 (case scanstring (drop n r) of
                    None \<Rightarrow> None
                  | Some (s, rest) \<Rightarrow> Some (u # s, rest)))
          else if c \<le> 31 then None
          else (case scanstring r of
                  None \<Rightarrow> None
                | Some (s, rest) \<Rightarrow> Some (c # s, rest)))"
  by pat_completeness auto
termination
  by (relation "measure length") auto

declare scanstring.simps [simp del]

text \<open>
  A number: an optional minus sign, an integer part without a leading zero, and
  optionally a fraction and an exponent.  Without fraction and exponent it is an
  integer, of any size.
\<close>

definition digits_value :: "pystr \<Rightarrow> nat" where
  "digits_value ds = foldl (\<lambda>acc d. acc * 10 + (d - 48)) 0 ds"

definition match_exponent :: "pystr \<Rightarrow> pystr \<times> pystr" where
  "match_exponent rest =
     (case rest of
        [] \<Rightarrow> ([], rest)
      | e # r \<Rightarrow>
          if e = 101 \<or> e = 69 then
            (let sg = (case r of s # t # _ \<Rightarrow> if s = 45 \<or> s = 43 then [s] else [] | _ \<Rightarrow> []);
                 r' = drop (length sg) r;
                 ds = takeWhile is_digit r'
             in if ds \<noteq> [] then (e # sg @ ds, dropWhile is_digit r') else ([], rest))
          else ([], rest))"

definition match_fraction :: "pystr \<Rightarrow> pystr \<times> pystr" where
  "match_fraction rest =
     (case rest of
        c # f # r \<Rightarrow>
          if c = 46 \<and> is_digit f
          then (c # takeWhile is_digit (f # r), dropWhile is_digit (f # r))
          else ([], rest)
      | _ \<Rightarrow> ([], rest))"

definition number_tail :: "bool \<Rightarrow> pystr \<Rightarrow> pystr \<Rightarrow> pyval \<times> pystr" where
  "number_tail negative ipart rest =
     (case match_fraction rest of (frac, rest1) \<Rightarrow>
      case match_exponent rest1 of (ex, rest2) \<Rightarrow>
        if frac = [] \<and> ex = []
        then (PInt (if negative then - int (digits_value ipart) else int (digits_value ipart)),
              rest2)
        else (PFloat ((if negative then [45] else []) @ ipart @ frac @ ex), rest2))"

definition match_number :: "pystr \<Rightarrow> (pyval \<times> pystr) option" where
  "match_number cs =
     (let negative = (cs \<noteq> [] \<and> hd cs = 45);
          r0 = (if negative then tl cs else cs)
      in case r0 of
           [] \<Rightarrow> None
         | d # r1 \<Rightarrow>
             if 49 \<le> d \<and> d \<le> 57
             then Some (number_tail negative (d # takeWhile is_digit r1) (dropWhile is_digit r1))
             else if d = 48 then Some (number_tail negative [d] r1)
             else None)"

definition starts_with :: "pystr \<Rightarrow> pystr \<Rightarrow> bool" where
  "starts_with cs p = (take (length p) cs = p)"

text \<open>
  The result of scanning a value: the value and the rest of the text, or the text is
  refused.  The scanner calls itself for the items of arrays and objects; the fuel
  bounds the depth of these calls, and \<open>json_loads\<close> gives it more than any text can use.
  Setting a key that a dictionary already has replaces its value and keeps its place.
\<close>

datatype scan = Scanned pyval pystr | Invalid | OutOfFuel

definition PyDict_SetItem :: "(pystr \<times> pyval) list \<Rightarrow> pystr \<Rightarrow> pyval \<Rightarrow> (pystr \<times> pyval) list" where
  "PyDict_SetItem d k v =
     (if k \<in> fst ` set d then map (\<lambda>(k', v'). if k' = k then (k', v) else (k', v')) d
      else d @ [(k, v)])"

fun scan_once :: "nat \<Rightarrow> pystr \<Rightarrow> scan"
and parse_array :: "nat \<Rightarrow> pyval list \<Rightarrow> pystr \<Rightarrow> scan"
and parse_object :: "nat \<Rightarrow> (pystr \<times> pyval) list \<Rightarrow> pystr \<Rightarrow> scan"
where
  "scan_once 0 cs = OutOfFuel"
| "scan_once (Suc n) cs =
     (case cs of
        [] \<Rightarrow> Invalid
      | c # r \<Rightarrow>
          if c = 34 then
            (case scanstring r of
               None \<Rightarrow> Invalid
             | Some (s, rest) \<Rightarrow> Scanned (PStr s) rest)
          else if c = 123 then
            (case skip_whitespace r of
               [] \<Rightarrow> parse_object n [] []
             | c' # r' \<Rightarrow>
                 if c' = 125 then Scanned (PDict []) r' else parse_object n [] (c' # r'))
          else if c = 91 then
            (case skip_whitespace r of
               [] \<Rightarrow> parse_array n [] []
             | c' # r' \<Rightarrow>
                 if c' = 93 then Scanned (PList []) r' else parse_array n [] (c' # r'))
          else if starts_with cs (str_of ''null'') then Scanned PNone (drop 4 cs)
          else if starts_with cs (str_of ''true'') then Scanned (PBool True) (drop 4 cs)
          else if starts_with cs (str_of ''false'') then Scanned (PBool False) (drop 5 cs)
          else if starts_with cs (str_of ''NaN'') then Scanned (PFloat (str_of ''NaN'')) (drop 3 cs)
          else if starts_with cs (str_of ''Infinity'')
            then Scanned (PFloat (str_of ''Infinity'')) (drop 8 cs)
          else if starts_with cs (str_of ''-Infinity'')
            then Scanned (PFloat (str_of ''-Infinity'')) (drop 9 cs)
          else (case match_number cs of
                  None \<Rightarrow> Invalid
                | Some (v, rest) \<Rightarrow> Scanned v rest))"
| "parse_array 0 acc cs = OutOfFuel"
| "parse_array (Suc n) acc cs =
     (case scan_once n cs of
        OutOfFuel \<Rightarrow> OutOfFuel
      | Invalid \<Rightarrow> Invalid
      | Scanned v rest \<Rightarrow>
          (case skip_whitespace rest of
             [] \<Rightarrow> Invalid
           | c # r \<Rightarrow>
               if c = 93 then Scanned (PList (acc @ [v])) r
               else if c = 44 then parse_array n (acc @ [v]) (skip_whitespace r)
               else Invalid))"
| "parse_object 0 acc cs = OutOfFuel"
| "parse_object (Suc n) acc cs =
     (case cs of
        [] \<Rightarrow> Invalid
      | q # r \<Rightarrow>
          if q \<noteq> 34 then Invalid
          else
            (case scanstring r of
               None \<Rightarrow> Invalid
             | Some (key, r1) \<Rightarrow>
                 (case skip_whitespace r1 of
                    [] \<Rightarrow> Invalid
                  | colon # r2 \<Rightarrow>
                      if colon \<noteq> 58 then Invalid
                      else
                        (case scan_once n (skip_whitespace r2) of
                           OutOfFuel \<Rightarrow> OutOfFuel
                         | Invalid \<Rightarrow> Invalid
                         | Scanned v rest \<Rightarrow>
                             (case skip_whitespace rest of
                                [] \<Rightarrow> Invalid
                              | c # r3 \<Rightarrow>
                                  if c = 125 then Scanned (PDict (PyDict_SetItem acc key v)) r3
                                  else if c = 44
                                  then parse_object n (PyDict_SetItem acc key v) (skip_whitespace r3)
                                  else Invalid)))))"

definition json_loads :: "pystr \<Rightarrow> pyval option" where
  "json_loads s =
     (case scan_once (2 * length s + 1) (skip_whitespace s) of
        Scanned v rest \<Rightarrow> if skip_whitespace rest = [] then Some v else None
      | Invalid \<Rightarrow> None
      | OutOfFuel \<Rightarrow> None)"

subsection \<open>Values that survive the file\<close>

text \<open>A Unicode scalar value: a code point that is no surrogate.\<close>

definition scalar :: "codepoint \<Rightarrow> bool" where
  "scalar c = (c < 0x110000 \<and> \<not> (0xD800 \<le> c \<and> c \<le> 0xDFFF))"

text \<open>What may follow a number without being read as part of it.\<close>

definition number_end :: "pystr \<Rightarrow> bool" where
  "number_end rest =
     (case rest of [] \<Rightarrow> True | c # _ \<Rightarrow> \<not> is_digit c \<and> c \<noteq> 46 \<and> c \<noteq> 101 \<and> c \<noteq> 69)"

text \<open>
  CPython 3.11 refuses to write or to read an integer of more than 4300 decimal digits
  (\<^verbatim>\<open>sys.int_info.default_max_str_digits\<close>): both \<^verbatim>\<open>json.dump\<close> and \<^verbatim>\<open>json.load\<close> raise
  \<^verbatim>\<open>ValueError\<close> on one.  The integers of the model are not limited; the values that are
  written and read back unchanged are taken from within the limit.
\<close>

definition max_str_digits :: nat where
  "max_str_digits = 4300"

definition convertible :: "int \<Rightarrow> bool" where
  "convertible i = (\<bar>i\<bar> < 10 ^ max_str_digits)"

text \<open>
  The values that are written and read back unchanged: no floating-point number,
  integers within the limit, strings of scalar values, dictionaries without a
  repeated key.
\<close>

fun json_safe :: "pyval \<Rightarrow> bool" where
  "json_safe PNone = True"
| "json_safe (PBool b) = True"
| "json_safe (PInt i) = convertible i"
| "json_safe (PFloat lit) = False"
| "json_safe (PStr s) = list_all scalar s"
| "json_safe (PList xs) = list_all json_safe xs"
| "json_safe (PDict kvs) =
     (distinct (map fst kvs) \<and> list_all (\<lambda>kv. list_all scalar (fst kv) \<and> json_safe (snd kv)) kvs)"

text \<open>A first character of a value: no white space, no closing bracket.\<close>

definition value_start :: "codepoint \<Rightarrow> bool" where
  "value_start c = (\<not> is_whitespace c \<and> c \<noteq> 93 \<and> c \<noteq> 125)"

text \<open>
  The text written for \<open>x\<close> at a level of indentation, followed by any rest, is scanned
  as \<open>x\<close>, leaving the rest, with any fuel above twice its length.
\<close>

definition scans :: "nat \<Rightarrow> pyval \<Rightarrow> bool" where
  "scans l x =
     (\<forall>n rest. number_end rest \<longrightarrow> 2 * length (iterencode l x @ rest) < n \<longrightarrow>
        scan_once n (iterencode l x @ rest) = Scanned x rest)"

section \<open>The stores\<close>

subsection \<open>Files\<close>

text \<open>
  The file system as the two stores see it: a path either does not exist or holds a
  sequence of bytes.  \<^verbatim>\<open>open(file_path, "r")\<close> reads a file as text: it decodes the bytes
  with the encoding of the locale, which is UTF-8 here, refusing what is not valid UTF-8,
  and it replaces every line end, \<^verbatim>\<open>\r\n\<close> or \<^verbatim>\<open>\r\<close>, by a line feed.
  \<^verbatim>\<open>open(file_path, "w")\<close> encodes the text written; on the systems where a line ends
  with a line feed it writes the line feeds as they are.
\<close>

type_synonym byte = nat

type_synonym filesystem = "pystr \<rightharpoonup> byte list"

definition continuation :: "byte \<Rightarrow> bool" where
  "continuation b = (0x80 \<le> b \<and> b \<le> 0xBF)"

fun utf8_decode :: "byte list \<Rightarrow> pystr option" where
  "utf8_decode [] = Some []"
| "utf8_decode (b # bs) =
     (if b < 0x80 then map_option ((#) b) (utf8_decode bs)
      else if 0xC2 \<le> b \<and> b \<le> 0xDF then
        (case bs of
           c1 # r \<Rightarrow>
             if continuation c1
             then map_option ((#) ((b - 0xC0) * 64 + (c1 - 0x80))) (utf8_decode r)
             else None
         | _ \<Rightarrow> None)
      else if 0xE0 \<le> b \<and> b \<le> 0xEF then
        (case bs of
           c1 # c2 # r \<Rightarrow>
             if continuation c1 \<and> continuation c2
                \<and> 0x800 \<le> (b - 0xE0) * 4096 + (c1 - 0x80) * 64 + (c2 - 0x80)
                \<and> \<not> (0xD800 \<le> (b - 0xE0) * 4096 + (c1 - 0x80) * 64 + (c2 - 0x80)
                      \<and> (b - 0xE0) * 4096 + (c1 - 0x80) * 64 + (c2 - 0x80) \<le> 0xDFFF)
             then map_option ((#) ((b - 0xE0) * 4096 + (c1 - 0x80) * 64 + (c2 - 0x80)))
                    (utf8_decode r)
             else None
         | _ \<Rightarrow> None)
      else if 0xF0 \<le> b \<and> b \<le> 0xF4 then
        (case bs of
           c1 # c2 # c3 # r \<Rightarrow>
             if continuation c1 \<and> continuation c2 \<and> continuation c3
                \<and> 0x10000 \<le> (b - 0xF0) * 262144 + (c1 - 0x80) * 4096 + (c2 - 0x80) * 64 + (c3 - 0x80)
                \<and> (b - 0xF0) * 262144 + (c1 - 0x80) * 4096 + (c2 - 0x80) * 64 + (c3 - 0x80) \<le> 0x10FFFF
             then map_option
                    ((#) ((b - 0xF0) * 262144 + (c1 - 0x80) * 4096 + (c2 - 0x80) * 64 + (c3 - 0x80)))
                    (utf8_decode r)
             else None
         | _ \<Rightarrow> None)
      else None)"

fun universal_newlines :: "pystr \<Rightarrow> pystr" where
  "universal_newlines [] = []"
| "universal_newlines (c # cs) =
     (if c = 13 then
        (case cs of
           [] \<Rightarrow> [10]
         | d # r \<Rightarrow> if d = 10 then 10 # universal_newlines r else 10 # universal_newlines cs)
      else c # universal_newlines cs)"

text \<open>
  The bytes of a text in UTF-8.  \<^verbatim>\<open>json.dump\<close> writes characters below U+0080 only, one
  byte each; the other characters take two, three or four bytes.
\<close>

definition utf8_char :: "codepoint \<Rightarrow> byte list" where
  "utf8_char c =
     (if c < 0x80 then [c]
      else if c < 0x800 then [0xC0 + c div 64, 0x80 + c mod 64]
      else if c < 0x10000 then [0xE0 + c div 4096, 0x80 + c div 64 mod 64, 0x80 + c mod 64]
      else [0xF0 + c div 262144, 0x80 + c div 4096 mod 64, 0x80 + c div 64 mod 64,
            0x80 + c mod 64])"

definition utf8_encode :: "pystr \<Rightarrow> byte list" where
  "utf8_encode text = concat (map utf8_char text)"

definition PASSWORDS_FILE :: pystr where
  "PASSWORDS_FILE = str_of ''storage/passwords.json''"

definition LINKS_FILE :: pystr where
  "LINKS_FILE = str_of ''storage/links.json''"

text \<open>
  \<^verbatim>\<open>data_loader\<close> returns the empty list when the file does not exist and when
  \<^verbatim>\<open>json.load\<close> raises \<^verbatim>\<open>json.JSONDecodeError\<close>, the only exception it catches; a file
  that cannot be decoded raises \<^verbatim>\<open>UnicodeDecodeError\<close> when \<^verbatim>\<open>json.load\<close> reads it.
  \<^verbatim>\<open>data_saver\<close> replaces the content of the file by the text \<^verbatim>\<open>json.dump\<close> writes.
\<close>

datatype error = KeyError | TypeError | AttributeError | JSONDecodeError | UnicodeDecodeError

definition data_loader :: "filesystem \<Rightarrow> pystr \<Rightarrow> error + pyval" where
  "data_loader fs file_path =
     (case fs file_path of
        None \<Rightarrow> Inr (PList [])
      | Some bytes \<Rightarrow>
          (case utf8_decode bytes of
             None \<Rightarrow> Inl UnicodeDecodeError
           | Some decoded \<Rightarrow>
               (case json_loads (universal_newlines decoded) of
                  Some data \<Rightarrow> Inr data
                | None \<Rightarrow> Inr (PList []))))"

definition data_saver :: "filesystem \<Rightarrow> pystr \<Rightarrow> pyval \<Rightarrow> filesystem" where
  "data_saver fs file_path data = fs(file_path \<mapsto> utf8_encode (json_dumps data))"

subsection \<open>Operations on loaded values\<close>

text \<open>
  What \<^verbatim>\<open>json.load\<close> returns need not be a list of dictionaries, and the source does not
  check that it is: the operations it applies raise on the other values.  A \<^verbatim>\<open>for\<close>
  loop runs over the items of a list, the keys of a dictionary and the characters of
  a string; \<^verbatim>\<open>entry["key"]\<close> is defined on dictionaries that have the key; \<^verbatim>\<open>append\<close>
  is a method of lists only.
\<close>

definition py_iter :: "pyval \<Rightarrow> error + pyval list" where
  "py_iter v =
     (case v of
        PList xs \<Rightarrow> Inr xs
      | PDict kvs \<Rightarrow> Inr (map (\<lambda>kv. PStr (fst kv)) kvs)
      | PStr s \<Rightarrow> Inr (map (\<lambda>c. PStr [c]) s)
      | _ \<Rightarrow> Inl TypeError)"

definition py_getitem :: "pyval \<Rightarrow> pystr \<Rightarrow> error + pyval" where
  "py_getitem v key =
     (case v of
        PDict kvs \<Rightarrow> (case map_of kvs key of None \<Rightarrow> Inl KeyError | Some x \<Rightarrow> Inr x)
      | _ \<Rightarrow> Inl TypeError)"

subsection \<open>The password history\<close>

definition recently_used_message :: pystr where
  "recently_used_message =
     cross_mark # str_of '' This password was recently used. Choose another.''"

definition unique_message :: pystr where
  "unique_message = check_mark # str_of '' Password is unique and not reused.''"

definition criteria_message :: pystr where
  "criteria_message = cross_mark # str_of '' Password does not meet security criteria.''"

definition add_success_message :: pystr where
  "add_success_message = check_mark # str_of '' Success: Password added successfully.''"

text \<open>The loop of \<^verbatim>\<open>check_repeated_password\<close> over the entries of the history.\<close>

fun check_repeated_loop :: "pyval list \<Rightarrow> pystr \<Rightarrow> error + (bool \<times> pystr)" where
  "check_repeated_loop [] password = Inr (True, unique_message)"
| "check_repeated_loop (entry # entries) password =
     (case py_getitem entry (str_of ''password'') of
        Inl e \<Rightarrow> Inl e
      | Inr x \<Rightarrow>
          if x = PStr password then Inr (False, recently_used_message)
          else check_repeated_loop entries password)"

definition check_repeated_password :: "filesystem \<Rightarrow> pystr \<Rightarrow> error + (bool \<times> pystr)" where
  "check_repeated_password fs password =
     (case data_loader fs PASSWORDS_FILE of
        Inl e \<Rightarrow> Inl e
      | Inr passwords \<Rightarrow>
          (case py_iter passwords of
             Inl e \<Rightarrow> Inl e
           | Inr entries \<Rightarrow> check_repeated_loop entries password))"

text \<open>The dictionary \<^verbatim>\<open>add_password\<close> appends, its keys in the order of the source.\<close>

definition password_record :: "pystr \<Rightarrow> pyval" where
  "password_record password =
     (let analysis = password_evaluator password in
      PDict [(str_of ''password'', PStr password),
             (str_of ''score'', PInt (score analysis)),
             (str_of ''rank'', PStr (rank analysis)),
             (str_of ''feedback'', PList (map PStr (feedback analysis)))])"

text \<open>\<^verbatim>\<open>if len(passwords) > 5: passwords.pop(0)\<close>\<close>

definition maintain_last_five :: "pyval list \<Rightarrow> pyval list" where
  "maintain_last_five passwords = (if length passwords > 5 then tl passwords else passwords)"

text \<open>
  \<^verbatim>\<open>add_password\<close> returns its message; the file system after the call is returned with
  it.  The two calls of \<^verbatim>\<open>data_loader\<close>, its own and the one of
  \<^verbatim>\<open>check_repeated_password\<close>, read the same file.
\<close>

definition add_password :: "filesystem \<Rightarrow> pystr \<Rightarrow> error + (pystr \<times> filesystem)" where
  "add_password fs password =
     (case data_loader fs PASSWORDS_FILE of
        Inl e \<Rightarrow> Inl e
      | Inr passwords \<Rightarrow>
          (case check_repeated_password fs password of
             Inl e \<Rightarrow> Inl e
           | Inr (is_unique, history_message) \<Rightarrow>
               if \<not> is_unique then Inr (history_message, fs)
               else if \<not> password_validator password then Inr (criteria_message, fs)
               else
                 (case passwords of
                    PList xs \<Rightarrow>
                      Inr (add_success_message,
                           data_saver fs PASSWORDS_FILE
                             (PList (maintain_last_five (xs @ [password_record password]))))
                  | _ \<Rightarrow> Inl AttributeError)))"

text \<open>Calls of \<^verbatim>\<open>add_password\<close> one after the other, each on the files the last one left.\<close>

fun add_passwords :: "filesystem \<Rightarrow> pystr list \<Rightarrow> error + (pystr list \<times> filesystem)" where
  "add_passwords fs [] = Inr ([], fs)"
| "add_passwords fs (password # rest) =
     (case add_password fs password of
        Inl e \<Rightarrow> Inl e
      | Inr (message, fs') \<Rightarrow>
          (case add_passwords fs' rest of
             Inl e \<Rightarrow> Inl e
           | Inr (messages, fs'') \<Rightarrow> Inr (message # messages, fs'')))"

subsection \<open>The link store\<close>

definition duplicate_link_message :: pystr where
  "duplicate_link_message =
     cross_mark # str_of '' Error: A password is already stored for this site and username.''"

definition link_success_message :: pystr where
  "link_success_message = check_mark # str_of '' Success: Password saved for the site.''"

text \<open>
  The loop of \<^verbatim>\<open>store_link\<close>: whether an entry has the site and the username.  The
  \<^verbatim>\<open>and\<close> of the source looks the username up only when the site is equal.
\<close>

fun store_link_loop :: "pyval list \<Rightarrow> pystr \<Rightarrow> pystr \<Rightarrow> error + bool" where
  "store_link_loop [] site username = Inr False"
| "store_link_loop (entry # entries) site username =
     (case py_getitem entry (str_of ''site'') of
        Inl e \<Rightarrow> Inl e
      | Inr s \<Rightarrow>
          if s = PStr site then
            (case py_getitem entry (str_of ''username'') of
               Inl e \<Rightarrow> Inl e
             | Inr u \<Rightarrow>
                 if u = PStr username then Inr True
                 else store_link_loop entries site username)
          else store_link_loop entries site username)"

definition link_record :: "pystr \<Rightarrow> pystr \<Rightarrow> pystr \<Rightarrow> pyval" where
  "link_record site username password =
     (let analysis = password_evaluator password in
      PDict [(str_of ''site'', PStr site),
             (str_of ''username'', PStr username),
             (str_of ''password'', PStr password),
             (str_of ''score'', PInt (score analysis)),
             (str_of ''rank'', PStr (rank analysis))])"

definition store_link :: "filesystem \<Rightarrow> pystr \<Rightarrow> pystr \<Rightarrow> pystr \<Rightarrow> error + (pystr \<times> filesystem)" where
  "store_link fs site username password =
     (case data_loader fs LINKS_FILE of
        Inl e \<Rightarrow> Inl e
      | Inr links \<Rightarrow>
          (case py_iter links of
             Inl e \<Rightarrow> Inl e
           | Inr entries \<Rightarrow>
               (case store_link_loop entries site username of
                  Inl e \<Rightarrow> Inl e
                | Inr found \<Rightarrow>
                    if found then Inr (duplicate_link_message, fs)
                    else
                      (case links of
                         PList xs \<Rightarrow>
                           Inr (link_success_message,
                                data_saver fs LINKS_FILE
                                  (PList (xs @ [link_record site username password])))
                       | _ \<Rightarrow> Inl AttributeError))))"

definition get_linked_passwords :: "filesystem \<Rightarrow> error + pyval" where
  "get_linked_passwords fs = data_loader fs LINKS_FILE"

subsection \<open>The save button of the page\<close>






subsection \<open>Well-formed stores\<close>

text \<open>
  An entry of the history whose password is not \<open>p\<close>: a dictionary with a value other
  than \<open>p\<close> under the key \<^verbatim>\<open>password\<close>.  An entry of the link store: a dictionary with
  the keys \<^verbatim>\<open>site\<close> and \<^verbatim>\<open>username\<close>; it is taken when it has the site and the
  username.
\<close>

definition other_password :: "pystr \<Rightarrow> pyval \<Rightarrow> bool" where
  "other_password p entry =
     (case py_getitem entry (str_of ''password'') of
        Inr x \<Rightarrow> x \<noteq> PStr p
      | Inl e \<Rightarrow> False)"

definition has_password :: "pyval \<Rightarrow> bool" where
  "has_password entry =
     (case py_getitem entry (str_of ''password'') of Inr x \<Rightarrow> True | Inl e \<Rightarrow> False)"

definition is_link :: "pyval \<Rightarrow> bool" where
  "is_link entry =
     (case py_getitem entry (str_of ''site'') of
        Inr s \<Rightarrow> (case py_getitem entry (str_of ''username'') of Inr u \<Rightarrow> True | Inl e \<Rightarrow> False)
      | Inl e \<Rightarrow> False)"

definition link_taken :: "pystr \<Rightarrow> pystr \<Rightarrow> pyval \<Rightarrow> bool" where
  "link_taken site username entry =
     (py_getitem entry (str_of ''site'') = Inr (PStr site)
      \<and> py_getitem entry (str_of ''username'') = Inr (PStr username))"

text \<open>The characters \<^verbatim>\<open>json.dump\<close> writes: the line feed and the characters from the space to \<^verbatim>\<open>~\<close>.\<close>

definition printable :: "codepoint \<Rightarrow> bool" where
  "printable c = (c = 10 \<or> (32 \<le> c \<and> c \<le> 126))"

(*DEFS-END*)



section \<open>Properties\<close>

lemmas class_defs = dot_class_def letter_class_def upper_class_def lower_class_def
  digit_class_def unicode_Nd_runs_def validator_special_class_def validator_class_def
  evaluator_special_class_def

lemmas check_defs = check_length_def check_case_def check_digit_def check_special_def

lemmas feedback_defs = length_feedback_def case_feedback_def digit_feedback_def
  special_feedback_def cross_mark_def

subsection \<open>Searching for one character of a class\<close>

lemma re_search_One: "re_search [One P] s = list_ex P s"
proof -
  have "list_ex (\<lambda>i. i < length s \<and> P (s ! i)) [0 ..< length s + 1] = list_ex P s"
  proof
    assume "list_ex (\<lambda>i. i < length s \<and> P (s ! i)) [0 ..< length s + 1]"
    then obtain i where "i < length s" "P (s ! i)" by (auto simp: list_ex_iff)
    then have "\<exists>x\<in>set s. P x" using nth_mem by blast
    then show "list_ex P s" by (simp add: list_ex_iff)
  next
    assume "list_ex P s"
    then obtain i where "i < length s" "P (s ! i)" by (auto simp: list_ex_iff in_set_conv_nth)
    then have "\<exists>i\<in>set [0 ..< length s + 1]. i < length s \<and> P (s ! i)" by auto
    then show "list_ex (\<lambda>i. i < length s \<and> P (s ! i)) [0 ..< length s + 1]"
      unfolding list_ex_iff .
  qed
  moreover have "re_match_at [One P] s = (\<lambda>i. i < length s \<and> P (s ! i))"
    by (rule ext) simp
  ultimately show ?thesis by (simp only: re_search_def)
qed

subsection \<open>The classes of the evaluator, character by character\<close>

lemma upper_class_letters: "upper_class = claim_uppercase"
proof (rule ext)
  fix c
  have e: "str_of ''ABCDEFGHIJKLMNOPQRSTUVWXYZ'' = [65 ..< 91]"
    by (simp add: str_of_def)
  show "upper_class c = claim_uppercase c"
    unfolding claim_uppercase_def upper_class_def e by (simp only: set_upt atLeastLessThan_iff) arith
qed

lemma lower_class_letters: "lower_class = claim_lowercase"
proof (rule ext)
  fix c
  have e: "str_of ''abcdefghijklmnopqrstuvwxyz'' = [97 ..< 123]"
    by (simp add: str_of_def)
  show "lower_class c = claim_lowercase c"
    unfolding claim_lowercase_def lower_class_def e by (simp only: set_upt atLeastLessThan_iff) arith
qed

lemma digit_class_Nd: "digit_class = unicode_decimal_digit"
  by (rule ext) (simp only: digit_class_def unicode_decimal_digit_def case_prod_unfold)

lemma evaluator_special_class_set: "evaluator_special_class = claim_special"
  by (rule ext) (simp add: evaluator_special_class_def claim_special_def str_of_def)

subsection \<open>The evaluator\<close>

text \<open>
  Claim C1, as it holds.  For every password, the score of \<open>password_evaluator\<close> is the
  number of the four predicates that hold, where the predicates are: at least 8
  characters; one of the letters \<^verbatim>\<open>A\<close> to \<^verbatim>\<open>Z\<close> and one of the letters \<^verbatim>\<open>a\<close> to \<^verbatim>\<open>z\<close>; a
  character of the Unicode category Nd; one of the eight characters \<^verbatim>\<open>!@#$%^&*\<close>.  The
  feedback is the list of the messages of the failed predicates, in the order length,
  case mix, digit, special character; and the rank is the entry of the table Weak,
  Moderate, Good, Strong, Excellent at index \<open>min score 4\<close>.
\<close>

theorem password_evaluator_counts_exact_predicates:
  "score (password_evaluator p) = int (length (filter id (exact_predicates p)))
   \<and> feedback (password_evaluator p) =
       map snd (filter (\<lambda>(ok, m). \<not> ok) (zip (exact_predicates p) spec_messages))
   \<and> rank (password_evaluator p) =
       [str_of ''Weak'', str_of ''Moderate'', str_of ''Good'', str_of ''Strong'',
        str_of ''Excellent''] ! nat (min (score (password_evaluator p)) 4)"
  by (simp add: password_evaluator_def check_defs re_search_One exact_predicates_def
      spec_messages_def password_strength_ranking_def upper_class_letters
      lower_class_letters digit_class_Nd evaluator_special_class_set)

theorem password_evaluator_counts_exact_predicates_witness:
  "score (password_evaluator (str_of ''weak'')) = 0
   \<and> feedback (password_evaluator (str_of ''weak''))
       = [length_feedback, case_feedback, digit_feedback, special_feedback]
   \<and> rank (password_evaluator (str_of ''weak'')) = str_of ''Weak''"
  using password_evaluator_counts_exact_predicates [of "str_of ''weak''"]
  by (simp add: exact_predicates_def spec_messages_def str_of_def claim_uppercase_def
      claim_lowercase_def claim_special_def unicode_decimal_digit_def unicode_Nd_runs_def)

text \<open>
  Claim C1, as the specification words it, does not hold for every input string.  The
  password of the single character U+0663, the Arabic-Indic digit three, satisfies none
  of the four predicates when a decimal digit is one of \<^verbatim>\<open>0\<close> to \<^verbatim>\<open>9\<close>, so the claim gives
  it the score 0 and all four messages; \<^verbatim>\<open>\d\<close> matches it, and the evaluator returns the
  score 1 and leaves the digit message out.  Reading the letters as widely as the
  digits does not help: the evaluator gives no point for the case mix to the password
  of U+00C9 and U+00E9, a capital and a small letter e with an acute accent, and returns
  the score 0 with all four messages.
\<close>

theorem password_evaluator_counts_arabic_indic_digit:
  "score (password_evaluator [0x663]) = 1
   \<and> int (length (filter id (claim_predicates [0x663]))) = 0
   \<and> score (password_evaluator [0x663]) \<noteq> int (length (filter id (claim_predicates [0x663])))
   \<and> feedback (password_evaluator [0x663]) = [length_feedback, case_feedback, special_feedback]
   \<and> map snd (filter (\<lambda>(ok, m). \<not> ok) (zip (claim_predicates [0x663]) spec_messages))
       = [length_feedback, case_feedback, digit_feedback, special_feedback]
   \<and> score (password_evaluator [0xC9, 0xE9]) = 0
   \<and> feedback (password_evaluator [0xC9, 0xE9])
       = [length_feedback, case_feedback, digit_feedback, special_feedback]"
  by (simp add: password_evaluator_def check_defs re_search_One claim_predicates_def
      spec_messages_def claim_uppercase_def claim_lowercase_def claim_decimal_digit_def
      claim_special_def str_of_def class_defs)

text \<open>
  Claim C9.  For every password the score and the number of feedback messages add up
  to 4: each of the four checks either adds one to the score or appends one message.
\<close>

theorem score_plus_feedback_is_four:
  "score (password_evaluator p) + int (length (feedback (password_evaluator p))) = 4"
  by (simp add: password_evaluator_def check_defs)

subsection \<open>The validator\<close>

lemma run0_le: "run P s 0 \<le> length s"
  using length_takeWhile_le [of P s] by (simp add: run_def)

lemma validator_length: "password_validator p \<Longrightarrow> 8 \<le> length p"
  using run0_le [of validator_class p]
  by (auto simp: password_validator_def re_match_def password_regex_pattern_def list_ex_iff)

lemma validator_digit: "password_validator p \<Longrightarrow> list_ex digit_class p"
  by (auto simp: password_validator_def re_match_def password_regex_pattern_def list_ex_iff)

text \<open>
  Claim C2 says that the validator accepts exactly the passwords of at least 8
  characters, all of them letters, digits or one of \<^verbatim>\<open>@$!%*?&\<close>, with a letter, a digit
  and a special character among them, and that it rejects every password with a
  character outside that set, whitespace included.  The pattern ends in \<^verbatim>\<open>$\<close>, which
  also matches just before a final line feed: the password \<^verbatim>\<open>abcdef1@\<close> followed by a
  line feed is accepted, although the line feed is not in the set.
\<close>

theorem validator_accepts_trailing_line_feed:
  "password_validator (str_of ''abcdef1@'' @ [10])
   \<and> \<not> validator_class 10
   \<and> \<not> list_all validator_class (str_of ''abcdef1@'' @ [10])"
  by (simp add: password_validator_def re_match_def password_regex_pattern_def str_of_def
      run_def class_defs)

text \<open>
  Claim C10.  A password that the validator accepts scores at least 2 with the
  evaluator, since it has at least 8 characters and a digit; it need not score more:
  \<^verbatim>\<open>abcdefg1?\<close> is accepted and scores exactly 2, failing the case mix and, \<^verbatim>\<open>?\<close> being
  no special character of the evaluator, the special-character check.
\<close>

theorem validator_implies_score_at_least_two:
  "(password_validator p \<longrightarrow> 2 \<le> score (password_evaluator p))
   \<and> password_validator (str_of ''abcdefg1?'')
   \<and> score (password_evaluator (str_of ''abcdefg1?'')) = 2
   \<and> feedback (password_evaluator (str_of ''abcdefg1?'')) = [case_feedback, special_feedback]"
proof (intro conjI impI)
  assume v: "password_validator p"
  show "2 \<le> score (password_evaluator p)"
    using validator_length [OF v] validator_digit [OF v]
    by (simp add: password_evaluator_def check_defs re_search_One)
next
  show "password_validator (str_of ''abcdefg1?'')"
    by (simp add: password_validator_def re_match_def password_regex_pattern_def str_of_def
        run_def class_defs)
next
  show "score (password_evaluator (str_of ''abcdefg1?'')) = 2"
    by (simp add: password_evaluator_def check_defs re_search_One str_of_def class_defs)
next
  show "feedback (password_evaluator (str_of ''abcdefg1?'')) = [case_feedback, special_feedback]"
    by (simp add: password_evaluator_def check_defs re_search_One str_of_def class_defs)
qed

theorem validator_implies_score_at_least_two_witness:
  "password_validator (str_of ''Secure@123'')
   \<and> 2 \<le> score (password_evaluator (str_of ''Secure@123''))"
proof -
  have v: "password_validator (str_of ''Secure@123'')"
    by (simp add: password_validator_def re_match_def password_regex_pattern_def str_of_def
        run_def class_defs)
  show ?thesis
    using v validator_implies_score_at_least_two [of "str_of ''Secure@123''"] by simp
qed

section \<open>The JSON text of a value is read back as the value\<close>

subsection \<open>The scanner consumes its input and never runs out of fuel\<close>

lemma skip_whitespace_length: "length (skip_whitespace cs) \<le> length cs"
  by (simp add: skip_whitespace_def length_dropWhile_le)

lemma unescape_pos: "unescape r = Some (u, n) \<Longrightarrow> 0 < n"
  by (auto simp: unescape_def split: list.splits if_splits option.splits)

lemma scanstring_Nil: "scanstring [] = None"
  by (simp add: scanstring.simps)

lemma scanstring_quote: "scanstring (34 # r) = Some ([], r)"
  by (simp add: scanstring.simps)

lemma scanstring_backslash:
  "scanstring (92 # r) =
     (case unescape r of None \<Rightarrow> None
      | Some (u, n) \<Rightarrow> (case scanstring (drop n r) of None \<Rightarrow> None
                          | Some (s, rest) \<Rightarrow> Some (u # s, rest)))"
  by (subst scanstring.simps) simp

lemma scanstring_control: "c \<le> 31 \<Longrightarrow> scanstring (c # r) = None"
  by (subst scanstring.simps) simp

lemma scanstring_plain:
  "c \<noteq> 34 \<Longrightarrow> c \<noteq> 92 \<Longrightarrow> 31 < c \<Longrightarrow>
   scanstring (c # r) = (case scanstring r of None \<Rightarrow> None
                          | Some (s, rest) \<Rightarrow> Some (c # s, rest))"
  by (subst scanstring.simps) simp

lemma scanstring_length: "scanstring cs = Some (s, rest) \<Longrightarrow> length rest < length cs"
proof (induction "length cs" arbitrary: cs s rest rule: less_induct)
  case less
  show ?case
  proof (cases cs)
    case Nil
    with less.prems show ?thesis by (simp add: scanstring_Nil)
  next
    case (Cons c r)
    consider "c = 34" | "c = 92" | "c \<le> 31" | "c \<noteq> 34" "c \<noteq> 92" "31 < c"
      by fastforce
    then show ?thesis
    proof cases
      case 1
      with less.prems Cons show ?thesis by (simp add: scanstring_quote)
    next
      case 2
      with less.prems Cons obtain u n s' where
        u: "unescape r = Some (u, n)" and s': "scanstring (drop n r) = Some (s', rest)"
        by (auto simp: scanstring_backslash split: option.splits)
      have "length (drop n r) < length cs" using Cons by simp
      from less.hyps [OF this s'] show ?thesis using Cons by simp
    next
      case 3
      with less.prems Cons show ?thesis by (simp add: scanstring_control)
    next
      case 4
      with less.prems Cons obtain s' where s': "scanstring r = Some (s', rest)"
        by (auto simp: scanstring_plain split: option.splits)
      have "length r < length cs" using Cons by simp
      from less.hyps [OF this s'] show ?thesis using Cons by simp
    qed
  qed
qed

lemma match_exponent_length: "match_exponent r = (e, r') \<Longrightarrow> length r' \<le> length r"
  by (auto simp: match_exponent_def Let_def split: list.splits if_splits
      intro: le_trans [OF length_dropWhile_le])

lemma match_fraction_length: "match_fraction r = (e, r') \<Longrightarrow> length r' \<le> length r"
  by (auto simp: match_fraction_def Let_def split: list.splits if_splits
      intro: le_trans [OF length_dropWhile_le])

lemma number_tail_length: "number_tail neg ip r = (v, r') \<Longrightarrow> length r' \<le> length r"
  by (auto simp: number_tail_def split: prod.splits if_splits
      dest!: match_exponent_length match_fraction_length)

lemma match_number_length: "match_number cs = Some (v, rest) \<Longrightarrow> length rest < length cs"
  by (cases cs)
     (auto simp: match_number_def Let_def split: list.splits if_splits
      dest!: number_tail_length intro: le_less_trans le_trans [OF _ length_dropWhile_le])

lemma skip_whitespace_Cons_length: "skip_whitespace r = c # r' \<Longrightarrow> length r' < length r"
  using skip_whitespace_length [of r] by simp

lemma skip_whitespace_Cons_length_le:
  "skip_whitespace r = c # r' \<Longrightarrow> length (c # r') \<le> length r"
  using skip_whitespace_length [of r] by simp

lemma scan_length_aux:
  "(\<forall>cs v rest. scan_once n cs = Scanned v rest \<longrightarrow> length rest < length cs)
   \<and> (\<forall>acc cs v rest. parse_array n acc cs = Scanned v rest \<longrightarrow> length rest < length cs)
   \<and> (\<forall>acc cs v rest. parse_object n acc cs = Scanned v rest \<longrightarrow> length rest < length cs)"
proof (induction n)
  case 0
  show ?case by simp
next
  case (Suc n)
  have so: "\<And>cs v rest. scan_once n cs = Scanned v rest \<Longrightarrow> length rest < length cs"
    and pa: "\<And>acc cs v rest. parse_array n acc cs = Scanned v rest \<Longrightarrow> length rest < length cs"
    and po: "\<And>acc cs v rest. parse_object n acc cs = Scanned v rest \<Longrightarrow> length rest < length cs"
    using Suc by blast+
  have 1: "length rest < length cs" if h: "scan_once (Suc n) cs = Scanned v rest" for cs v rest
  proof (cases cs)
    case Nil
    with h show ?thesis by simp
  next
    case (Cons c r)
    consider "c = 34" | "c = 123" | "c = 91" | "c \<noteq> 34" "c \<noteq> 123" "c \<noteq> 91" by blast
    then show ?thesis
    proof cases
      case 1
      with h Cons show ?thesis
        by (auto split: option.splits dest: scanstring_length)
    next
      case 2
      with h Cons show ?thesis
        by (auto split: list.splits if_splits
            dest!: po skip_whitespace_Cons_length skip_whitespace_Cons_length_le)
    next
      case 3
      with h Cons show ?thesis
        by (auto split: list.splits if_splits
            dest!: pa skip_whitespace_Cons_length skip_whitespace_Cons_length_le)
    next
      case 4
      with h Cons show ?thesis
        by (auto split: option.splits if_splits dest: match_number_length)
    qed
  qed
  have 2: "length rest < length cs" if h: "parse_array (Suc n) acc cs = Scanned v rest"
    for acc cs v rest
  proof -
    from h obtain v1 r1 where s: "scan_once n cs = Scanned v1 r1"
      by (auto split: scan.splits)
    from so [OF s] have l1: "length r1 < length cs" .
    from h s show ?thesis
      using l1 by (auto split: list.splits if_splits
          dest!: pa skip_whitespace_Cons_length skip_whitespace_Cons_length_le
                 order.strict_trans2 [OF _ skip_whitespace_length])
  qed
  have 3: "length rest < length cs" if h: "parse_object (Suc n) acc cs = Scanned v rest"
    for acc cs v rest
  proof -
    from h obtain r key r1 r2 v1 r3 where cs: "cs = 34 # r"
      and k: "scanstring r = Some (key, r1)"
      and c: "skip_whitespace r1 = 58 # r2"
      and s: "scan_once n (skip_whitespace r2) = Scanned v1 r3"
      by (auto split: list.splits if_splits option.splits scan.splits)
    have l: "length r3 < length cs"
      using scanstring_length [OF k] skip_whitespace_Cons_length [OF c] so [OF s]
        skip_whitespace_length [of r2] cs by simp
    from h cs k c s show ?thesis
      using l by (auto split: list.splits if_splits
          dest!: po skip_whitespace_Cons_length skip_whitespace_Cons_length_le
                 order.strict_trans2 [OF _ skip_whitespace_length])
  qed
  show ?case using 1 2 3 by blast
qed

lemma scan_once_length: "scan_once n cs = Scanned v rest \<Longrightarrow> length rest < length cs"
  using scan_length_aux by blast

lemma scan_fuel_aux:
  "(\<forall>cs. 2 * length cs < n \<longrightarrow> scan_once n cs \<noteq> OutOfFuel)
   \<and> (\<forall>acc cs. 2 * length cs + 1 < n \<longrightarrow> parse_array n acc cs \<noteq> OutOfFuel)
   \<and> (\<forall>acc cs. 2 * length cs + 1 < n \<longrightarrow> parse_object n acc cs \<noteq> OutOfFuel)"
proof (induction n)
  case 0
  show ?case by simp
next
  case (Suc n)
  have so: "\<And>cs. 2 * length cs < n \<Longrightarrow> scan_once n cs \<noteq> OutOfFuel"
    and pa: "\<And>acc cs. 2 * length cs + 1 < n \<Longrightarrow> parse_array n acc cs \<noteq> OutOfFuel"
    and po: "\<And>acc cs. 2 * length cs + 1 < n \<Longrightarrow> parse_object n acc cs \<noteq> OutOfFuel"
    using Suc by blast+
  have 1: "scan_once (Suc n) cs \<noteq> OutOfFuel" if h: "2 * length cs < Suc n" for cs
  proof (cases cs)
    case Nil
    then show ?thesis by simp
  next
    case (Cons c r)
    have a: "parse_array n [] x \<noteq> OutOfFuel" if "length x \<le> length r" for x
      using that h Cons by (intro pa) simp
    have o: "parse_object n [] x \<noteq> OutOfFuel" if "length x \<le> length r" for x
      using that h Cons by (intro po) simp
    show ?thesis
      using Cons a o skip_whitespace_length [of r]
      by (auto split: option.splits list.splits)
  qed
  have 2: "parse_array (Suc n) acc cs \<noteq> OutOfFuel" if h: "2 * length cs + 1 < Suc n"
    for acc cs
  proof (cases "scan_once n cs")
    case (Scanned v rest)
    have l: "length rest < length cs" using scan_once_length [OF Scanned] .
    have "parse_array n (acc @ [v]) (skip_whitespace r) \<noteq> OutOfFuel"
      if "skip_whitespace rest = c # r" for c r
      using skip_whitespace_Cons_length [OF that] skip_whitespace_length [of r] l h
      by (intro pa) simp
    then show ?thesis using Scanned by (auto split: list.splits)
  next
    case Invalid
    then show ?thesis by simp
  next
    case OutOfFuel
    with so [of cs] h show ?thesis by simp
  qed
  have 3: "parse_object (Suc n) acc cs \<noteq> OutOfFuel" if h: "2 * length cs + 1 < Suc n"
    for acc cs
  proof -
    have l2: "length (skip_whitespace r2) + 2 < length cs"
      if cs: "cs = 34 # r" and k: "scanstring r = Some (key, r1)"
       and c: "skip_whitespace r1 = 58 # r2" for r key r1 r2
      using scanstring_length [OF k] skip_whitespace_Cons_length [OF c]
        skip_whitespace_length [of r2] cs by simp
    have a: "scan_once n (skip_whitespace r2) \<noteq> OutOfFuel"
      if cs: "cs = 34 # r" and k: "scanstring r = Some (key, r1)"
       and c: "skip_whitespace r1 = 58 # r2" for r key r1 r2
      using l2 [OF that] h by (intro so) simp
    have b: "parse_object n acc' (skip_whitespace r4) \<noteq> OutOfFuel"
      if cs: "cs = 34 # r" and k: "scanstring r = Some (key, r1)"
       and c: "skip_whitespace r1 = 58 # r2"
       and s: "scan_once n (skip_whitespace r2) = Scanned v r3"
       and t: "skip_whitespace r3 = c4 # r4"
      for r key r1 r2 v r3 c4 r4 acc'
      using l2 [OF cs k c] scan_once_length [OF s] skip_whitespace_Cons_length [OF t]
        skip_whitespace_length [of r4] h by (intro po) simp
    from a b show ?thesis
      by (auto split: list.splits option.splits scan.splits)
  qed
  show ?case using 1 2 3 by blast
qed

lemma scan_once_fuel: "2 * length cs < n \<Longrightarrow> scan_once n cs \<noteq> OutOfFuel"
  using scan_fuel_aux by blast

subsection \<open>Strings are read back as written\<close>

lemma hex_value_hex_digit: "d < 16 \<Longrightarrow> hex_value (hex_digit d) = Some d"
  by (auto simp: hex_value_def hex_digit_def)

lemma hex4_arith:
  assumes "n < 65536"
  shows "((n div 4096 mod 16 * 16 + n div 256 mod 16) * 16 + n div 16 mod 16) * 16 + n mod 16
         = (n::nat)"
proof -
  define a where "a = n div 16"
  define b where "b = a div 16"
  define c where "c = b div 16"
  define r0 where "r0 = n mod 16"
  define r1 where "r1 = a mod 16"
  define r2 where "r2 = b mod 16"
  have n: "n = 16 * a + r0" by (simp add: a_def r0_def)
  have a: "a = 16 * b + r1" by (simp add: b_def r1_def)
  have b: "b = 16 * c + r2" by (simp add: c_def r2_def)
  have c: "c < 16" using assms n a b by simp
  have d: "n div 16 = a" "n div 256 = b" "n div 4096 = c"
    by (simp_all add: a_def b_def c_def div_mult2_eq [symmetric])
  have "((c mod 16 * 16 + r2) * 16 + r1) * 16 + r0 = n"
    using n a b c by simp
  then show ?thesis by (simp only: d r0_def r1_def r2_def)
qed

lemma decode_hex4_gen:
  "a < 16 \<Longrightarrow> b < 16 \<Longrightarrow> c < 16 \<Longrightarrow> d < 16 \<Longrightarrow>
   decode_hex4 (hex_digit a # hex_digit b # hex_digit c # hex_digit d # rest)
     = Some (((a * 16 + b) * 16 + c) * 16 + d)"
  by (simp add: hex_value_hex_digit)

lemma length_hex4 [simp]: "length (hex4 n) = 4"
  by (simp add: hex4_def)

lemma decode_hex4_hex4:
  assumes "n < 65536"
  shows "decode_hex4 (hex4 n @ rest) = Some n"
proof -
  have "decode_hex4 (hex4 n @ rest)
        = Some (((n div 4096 mod 16 * 16 + n div 256 mod 16) * 16 + n div 16 mod 16) * 16
                + n mod 16)"
    unfolding hex4_def append_Cons append_Nil by (rule decode_hex4_gen) simp_all
  then show ?thesis by (simp only: hex4_arith [OF assms])
qed

lemma unescape_u_bmp:
  "n < 65536 \<Longrightarrow> \<not> is_high_surrogate n \<Longrightarrow>
   unescape (117 # hex4 n @ rest) = Some (n, 5)"
  by (simp add: unescape_def decode_hex4_hex4)

lemma surrogate_arith:
  assumes "65536 \<le> c" "c < 1114112"
  shows "65536 + ((55296 + (c - 65536) div 1024) mod 1024 * 1024
            + (56320 + (c - 65536) mod 1024) mod 1024) = (c::nat)"
proof -
  define m where "m = c - 65536"
  define q where "q = m div 1024"
  define r where "r = m mod 1024"
  have m: "m = 1024 * q + r" by (simp add: q_def r_def)
  have r: "r < 1024" by (simp add: r_def)
  have q: "q < 1024" using assms m by (simp add: m_def)
  have "(q + 1024 * 54) mod 1024 = q mod 1024" by (rule mod_mult_self2)
  then have 1: "(55296 + q) mod 1024 = q" using q by (simp add: add.commute)
  have "(r + 1024 * 55) mod 1024 = r mod 1024" by (rule mod_mult_self2)
  then have 2: "(56320 + r) mod 1024 = r" using r by (simp add: add.commute)
  have "65536 + (q * 1024 + r) = c" using m assms by (simp add: m_def)
  then show ?thesis by (simp only: 1 2 m_def [symmetric] q_def [symmetric] r_def [symmetric])
qed

lemma unescape_u_pair:
  assumes "0x10000 \<le> c" "c < 0x110000"
  shows "unescape (117 # hex4 (0xD800 + (c - 0x10000) div 1024 mod 1024)
                   @ u_escape (0xDC00 + (c - 0x10000) mod 1024) @ rest) = Some (c, 11)"
proof -
  define h where "h = 0xD800 + (c - 0x10000) div 1024 mod 1024"
  define l where "l = 0xDC00 + (c - 0x10000) mod 1024"
  have q: "(c - 0x10000) div 1024 < 1024" using assms by simp
  have h: "h < 65536" "is_high_surrogate h"
    using q by (simp_all add: is_high_surrogate_def h_def)
  have l: "l < 65536" "is_low_surrogate l"
    by (simp_all add: is_low_surrogate_def l_def)
  have j: "join_surrogates h l = c"
    using surrogate_arith [of c] assms q by (simp add: join_surrogates_def h_def l_def)
  have "unescape (117 # hex4 h @ u_escape l @ rest) = Some (c, 11)"
    using h l j by (simp add: unescape_def u_escape_def decode_hex4_hex4)
  then show ?thesis by (simp only: h_def l_def)
qed

lemma length_u_escape [simp]: "length (u_escape n) = 6"
  by (simp add: u_escape_def)

lemma scanstring_escape_char:
  assumes "scalar c"
  shows "scanstring (escape_char c @ cs)
         = (case scanstring cs of None \<Rightarrow> None | Some (s, rest) \<Rightarrow> Some (c # s, rest))"
proof -
  consider (short) "c \<in> {34, 92, 10, 13, 9, 8, 12}"
    | (plain) "c \<notin> {34, 92, 10, 13, 9, 8, 12}" "32 \<le> c" "c \<le> 126"
    | (bmp) "c \<notin> {34, 92, 10, 13, 9, 8, 12}" "\<not> (32 \<le> c \<and> c \<le> 126)" "c < 0x10000"
    | (pair) "0x10000 \<le> c"
    by fastforce
  then show ?thesis
  proof cases
    case short
    then show ?thesis
      by (auto simp: escape_char_def scanstring_backslash unescape_def)
  next
    case plain
    then show ?thesis
      by (simp add: escape_char_def scanstring_plain)
  next
    case bmp
    have "\<not> is_high_surrogate c" using assms by (auto simp: scalar_def is_high_surrogate_def)
    with bmp have u: "unescape (117 # hex4 c @ cs) = Some (c, 5)"
      by (simp add: unescape_u_bmp)
    have e: "escape_char c = 92 # 117 # hex4 c"
      using bmp by (simp add: escape_char_def u_escape_def)
    show ?thesis
      by (simp add: e scanstring_backslash u)
  next
    case pair
    define h where "h = 0xD800 + (c - 0x10000) div 1024 mod 1024"
    define l where "l = 0xDC00 + (c - 0x10000) mod 1024"
    have c: "c < 0x110000" using assms by (simp add: scalar_def)
    have u: "unescape (117 # hex4 h @ u_escape l @ cs) = Some (c, 11)"
      unfolding h_def l_def using pair c by (rule unescape_u_pair)
    have e: "escape_char c = 92 # 117 # hex4 h @ u_escape l"
      using pair by (simp add: escape_char_def u_escape_def h_def l_def)
    show ?thesis
      by (simp add: e scanstring_backslash u)
  qed
qed

lemma scanstring_encode:
  "list_all scalar s \<Longrightarrow> scanstring (concat (map escape_char s) @ 34 # rest) = Some (s, rest)"
  by (induction s) (simp_all add: scanstring_quote scanstring_escape_char)

subsection \<open>Integers are read back as written\<close>

lemma nat_repr_digits: "list_all is_digit (nat_repr n)"
proof (induction n rule: nat_repr.induct)
  case (1 n)
  show ?case
  proof (cases "n < 10")
    case True
    then show ?thesis by (subst nat_repr.simps) (simp add: is_digit_def)
  next
    case False
    have d: "is_digit (48 + n mod 10)" by (simp add: is_digit_def)
    have ih: "list_all is_digit (nat_repr (n div 10))" using "1.IH" False by simp
    show ?thesis
      using False by (subst nat_repr.simps) (simp add: ih d)
  qed
qed

lemma nat_repr_ne: "nat_repr n \<noteq> []"
  by (subst nat_repr.simps) simp

lemma nat_repr_0: "nat_repr 0 = [48]"
  by (subst nat_repr.simps) simp

lemma nat_repr_hd: "0 < n \<Longrightarrow> 49 \<le> hd (nat_repr n) \<and> hd (nat_repr n) \<le> 57"
proof (induction n rule: nat_repr.induct)
  case (1 n)
  show ?case
  proof (cases "n < 10")
    case True
    with "1.prems" show ?thesis by (subst (1 2) nat_repr.simps) simp
  next
    case False
    then have "0 < n div 10" by simp
    with "1.IH" False have "49 \<le> hd (nat_repr (n div 10)) \<and> hd (nat_repr (n div 10)) \<le> 57"
      by simp
    with False show ?thesis
      by (subst (1 2) nat_repr.simps) (simp add: nat_repr_ne)
  qed
qed

lemma digits_value_snoc: "digits_value (ds @ [d]) = digits_value ds * 10 + (d - 48)"
  by (simp add: digits_value_def)

lemma digits_value_nat_repr: "digits_value (nat_repr n) = n"
proof (induction n rule: nat_repr.induct)
  case (1 n)
  show ?case
  proof (cases "n < 10")
    case True
    then show ?thesis by (subst nat_repr.simps) (simp add: digits_value_def)
  next
    case False
    with "1.IH" show ?thesis
      by (subst nat_repr.simps) (simp add: digits_value_snoc)
  qed
qed

lemma takeWhile_digits:
  "list_all is_digit ds \<Longrightarrow> number_end rest \<Longrightarrow> takeWhile is_digit (ds @ rest) = ds"
  by (induction ds) (auto simp: number_end_def split: list.splits)

lemma dropWhile_digits:
  "list_all is_digit ds \<Longrightarrow> number_end rest \<Longrightarrow> dropWhile is_digit (ds @ rest) = rest"
  by (induction ds) (auto simp: number_end_def split: list.splits)

lemma match_fraction_end: "number_end rest \<Longrightarrow> match_fraction rest = ([], rest)"
  by (auto simp: match_fraction_def number_end_def split: list.splits)

lemma match_exponent_end: "number_end rest \<Longrightarrow> match_exponent rest = ([], rest)"
  by (auto simp: match_exponent_def number_end_def split: list.splits)

lemma number_tail_end:
  "number_end rest \<Longrightarrow>
   number_tail neg ip rest
     = (PInt (if neg then - int (digits_value ip) else int (digits_value ip)), rest)"
  by (simp add: number_tail_def match_fraction_end match_exponent_end)

lemma match_number_nat_repr:
  assumes "number_end rest"
  shows "match_number (nat_repr n @ rest) = Some (PInt (int n), rest)"
proof (cases "n = 0")
  case True
  then show ?thesis
    using assms by (simp add: nat_repr_0 match_number_def number_tail_end digits_value_def)
next
  case False
  obtain d ds where r: "nat_repr n = d # ds" using nat_repr_ne [of n] by (cases "nat_repr n") auto
  have d: "49 \<le> d" "d \<le> 57" using nat_repr_hd [of n] False r by simp_all
  have ds: "list_all is_digit ds" using nat_repr_digits [of n] r by simp
  have v: "digits_value (d # ds) = n" using digits_value_nat_repr [of n] r by simp
  show ?thesis
    using assms d ds v
    by (simp add: r match_number_def number_tail_end takeWhile_digits dropWhile_digits)
qed

lemma match_number_neg_nat_repr:
  assumes "number_end rest" "0 < n"
  shows "match_number (45 # nat_repr n @ rest) = Some (PInt (- int n), rest)"
proof -
  obtain d ds where r: "nat_repr n = d # ds" using nat_repr_ne [of n] by (cases "nat_repr n") auto
  have d: "49 \<le> d" "d \<le> 57" using nat_repr_hd [of n] assms r by simp_all
  have ds: "list_all is_digit ds" using nat_repr_digits [of n] r by simp
  have v: "digits_value (d # ds) = n" using digits_value_nat_repr [of n] r by simp
  show ?thesis
    using assms d ds v
    by (simp add: r match_number_def number_tail_end takeWhile_digits dropWhile_digits)
qed

lemma match_number_int_repr:
  "number_end rest \<Longrightarrow> match_number (int_repr i @ rest) = Some (PInt i, rest)"
  by (simp add: int_repr_def match_number_nat_repr match_number_neg_nat_repr)

subsection \<open>Scalars are read back as written\<close>

lemma ws_newline_indent: "list_all is_whitespace (newline_indent l)"
  by (simp add: newline_indent_def is_whitespace_def list_all_iff)

lemma skip_whitespace_app:
  "list_all is_whitespace ws \<Longrightarrow> \<not> is_whitespace c \<Longrightarrow> skip_whitespace (ws @ c # cs) = c # cs"
  by (induction ws) (simp_all add: skip_whitespace_def)

lemma skip_whitespace_Cons: "\<not> is_whitespace c \<Longrightarrow> skip_whitespace (c # cs) = c # cs"
  by (simp add: skip_whitespace_def)

lemma int_repr_Cons:
  "\<exists>d ds. int_repr i = d # ds \<and> (d = 45 \<and> (\<exists>e es. ds = e # es \<and> is_digit e) \<or> is_digit d)"
proof (cases "i < 0")
  case True
  obtain e es where r: "nat_repr (nat (- i)) = e # es"
    using nat_repr_ne [of "nat (- i)"] by (cases "nat_repr (nat (- i))") auto
  have "is_digit e" using nat_repr_digits [of "nat (- i)"] r by simp
  with True r show ?thesis by (simp add: int_repr_def)
next
  case False
  obtain e es where r: "nat_repr (nat i) = e # es"
    using nat_repr_ne [of "nat i"] by (cases "nat_repr (nat i)") auto
  have "is_digit e" using nat_repr_digits [of "nat i"] r by simp
  with False r show ?thesis by (simp add: int_repr_def)
qed

lemma enc_first:
  assumes "json_safe v"
  shows "\<exists>c cs. iterencode l v = c # cs \<and> value_start c"
proof (cases v)
  case (PInt i)
  from int_repr_Cons [of i] show ?thesis
    by (auto simp: PInt value_start_def is_whitespace_def is_digit_def)
next
  case (PList xs)
  then show ?thesis
    by (cases xs) (simp_all add: value_start_def is_whitespace_def str_of_def)
next
  case (PDict kvs)
  then show ?thesis
    by (cases kvs) (auto simp: value_start_def is_whitespace_def str_of_def)
qed (use assms in \<open>simp_all add: value_start_def is_whitespace_def str_of_def
      encode_basestring_ascii_def\<close>)

lemma scan_once_null: "scan_once (Suc n) (str_of ''null'' @ rest) = Scanned PNone rest"
  by (simp add: str_of_def starts_with_def)

lemma scan_once_true: "scan_once (Suc n) (str_of ''true'' @ rest) = Scanned (PBool True) rest"
  by (simp add: str_of_def starts_with_def)

lemma scan_once_false: "scan_once (Suc n) (str_of ''false'' @ rest) = Scanned (PBool False) rest"
  by (simp add: str_of_def starts_with_def)

lemma scan_once_str:
  "list_all scalar s \<Longrightarrow>
   scan_once (Suc n) (encode_basestring_ascii s @ rest) = Scanned (PStr s) rest"
  by (simp add: encode_basestring_ascii_def scanstring_encode)

lemma scan_once_int:
  assumes "number_end rest"
  shows "scan_once (Suc n) (int_repr i @ rest) = Scanned (PInt i) rest"
proof -
  from int_repr_Cons [of i] obtain d ds where r: "int_repr i = d # ds"
    and d: "d = 45 \<and> (\<exists>e es. ds = e # es \<and> is_digit e) \<or> is_digit d" by blast
  have m: "match_number (d # ds @ rest) = Some (PInt i, rest)"
    using match_number_int_repr [OF assms, of i] r by simp
  from d show ?thesis
    by (auto simp: r m str_of_def starts_with_def is_digit_def)
qed

subsection \<open>Lists and dictionaries are read back as written\<close>

lemma scansD:
  "scans l x \<Longrightarrow> number_end rest \<Longrightarrow> 2 * length (iterencode l x @ rest) < n \<Longrightarrow>
   scan_once n (iterencode l x @ rest) = Scanned x rest"
  by (simp add: scans_def)

lemma number_end_close:
  "list_all is_whitespace ws \<Longrightarrow> c = 93 \<or> c = 125 \<Longrightarrow> number_end (ws @ c # rest)"
  by (cases ws) (auto simp: number_end_def is_whitespace_def is_digit_def)

lemma number_end_comma: "number_end (44 # rest)"
  by (simp add: number_end_def is_digit_def)

lemma parse_array_close:
  "scan_once n cs = Scanned v r \<Longrightarrow> skip_whitespace r = 93 # r' \<Longrightarrow>
   parse_array (Suc n) acc cs = Scanned (PList (acc @ [v])) r'"
  by simp

lemma parse_array_comma:
  "scan_once n cs = Scanned v r \<Longrightarrow> skip_whitespace r = 44 # r' \<Longrightarrow>
   parse_array (Suc n) acc cs = parse_array n (acc @ [v]) (skip_whitespace r')"
  by simp

lemma parse_object_close:
  "scanstring r = Some (key, r1) \<Longrightarrow> skip_whitespace r1 = 58 # r2 \<Longrightarrow>
   scan_once n (skip_whitespace r2) = Scanned v r3 \<Longrightarrow> skip_whitespace r3 = 125 # r4 \<Longrightarrow>
   parse_object (Suc n) acc (34 # r) = Scanned (PDict (PyDict_SetItem acc key v)) r4"
  by simp

lemma parse_object_comma:
  "scanstring r = Some (key, r1) \<Longrightarrow> skip_whitespace r1 = 58 # r2 \<Longrightarrow>
   scan_once n (skip_whitespace r2) = Scanned v r3 \<Longrightarrow> skip_whitespace r3 = 44 # r4 \<Longrightarrow>
   parse_object (Suc n) acc (34 # r)
     = parse_object n (PyDict_SetItem acc key v) (skip_whitespace r4)"
  by simp

lemma skip_ws_value:
  assumes "json_safe v" "list_all is_whitespace ws"
  shows "skip_whitespace (ws @ iterencode l v @ rest) = iterencode l v @ rest"
proof -
  from enc_first [OF assms(1), of l] obtain c cs where
    e: "iterencode l v = c # cs" and c: "value_start c" by blast
  then show ?thesis
    using skip_whitespace_app [OF assms(2), of c "cs @ rest"] by (simp add: value_start_def)
qed

lemma array_tail:
  assumes "\<forall>y\<in>set (x # xs). json_safe y \<and> scans l y"
    and "list_all is_whitespace ws"
    and "2 * length (iterencode l x @ iterencode_list l xs @ ws @ 93 # rest) + 1 < n"
  shows "parse_array n acc (iterencode l x @ iterencode_list l xs @ ws @ 93 # rest)
         = Scanned (PList (acc @ x # xs)) rest"
  using assms
proof (induction xs arbitrary: x n acc)
  case Nil
  obtain n' where n: "n = Suc n'" using Nil.prems(3) by (cases n) auto
  have s: "scan_once n' (iterencode l x @ ws @ 93 # rest) = Scanned x (ws @ 93 # rest)"
    using Nil.prems n by (intro scansD) (simp_all add: number_end_close)
  have nw: "\<not> is_whitespace 93" by (simp add: is_whitespace_def)
  have k: "skip_whitespace (ws @ 93 # rest) = 93 # rest"
    using skip_whitespace_app [OF Nil.prems(2) nw] .
  show ?case using parse_array_close [OF s k] n by simp
next
  case (Cons y ys)
  obtain n' where n: "n = Suc n'" using Cons.prems(3) by (cases n) auto
  let ?R = "newline_indent l @ iterencode l y @ iterencode_list l ys @ ws @ 93 # rest"
  have s: "scan_once n' (iterencode l x @ 44 # ?R) = Scanned x (44 # ?R)"
    using Cons.prems n by (intro scansD) (simp_all add: number_end_comma)
  have k: "skip_whitespace (44 # ?R) = 44 # ?R"
    by (simp add: skip_whitespace_Cons is_whitespace_def)
  have w: "skip_whitespace ?R = iterencode l y @ iterencode_list l ys @ ws @ 93 # rest"
    using Cons.prems(1) by (intro skip_ws_value) (simp_all add: ws_newline_indent)
  have "parse_array n' (acc @ [x]) (iterencode l y @ iterencode_list l ys @ ws @ 93 # rest)
        = Scanned (PList ((acc @ [x]) @ y # ys)) rest"
    using Cons.prems n by (intro Cons.IH) simp_all
  then show ?case using parse_array_comma [OF s k] n w by simp
qed

lemma scanstring_key:
  "list_all scalar k \<Longrightarrow> encode_basestring_ascii k @ r = 34 # r0 \<Longrightarrow> scanstring r0 = Some (k, r)"
  by (auto simp: encode_basestring_ascii_def scanstring_encode)

lemma SetItem_fresh: "k \<notin> fst ` set acc \<Longrightarrow> PyDict_SetItem acc k v = acc @ [(k, v)]"
  by (simp add: PyDict_SetItem_def)

lemma object_entry:
  assumes "list_all scalar k" "json_safe v" "scans l v" "number_end R"
    and "2 * length (iterencode l v @ R) < n"
  shows "scanstring (concat (map escape_char k) @ 34 # 58 # 32 # iterencode l v @ R)
           = Some (k, 58 # 32 # iterencode l v @ R)"
    and "skip_whitespace (58 # 32 # iterencode l v @ R) = 58 # 32 # iterencode l v @ R"
    and "scan_once n (skip_whitespace (32 # iterencode l v @ R)) = Scanned v R"
proof -
  show "scanstring (concat (map escape_char k) @ 34 # 58 # 32 # iterencode l v @ R)
           = Some (k, 58 # 32 # iterencode l v @ R)"
    using assms(1) by (rule scanstring_encode)
  show "skip_whitespace (58 # 32 # iterencode l v @ R) = 58 # 32 # iterencode l v @ R"
    by (simp add: skip_whitespace_Cons is_whitespace_def)
  have "skip_whitespace ([32] @ iterencode l v @ R) = iterencode l v @ R"
    using assms(2) by (rule skip_ws_value) (simp add: is_whitespace_def)
  then show "scan_once n (skip_whitespace (32 # iterencode l v @ R)) = Scanned v R"
    using scansD [OF assms(3,4,5)] by simp
qed

lemma dict_tail:
  assumes "\<forall>kv\<in>set ((k, v) # kvs). list_all scalar (fst kv) \<and> json_safe (snd kv) \<and> scans l (snd kv)"
    and "distinct (map fst (acc @ (k, v) # kvs))"
    and "list_all is_whitespace ws"
    and "2 * length (encode_basestring_ascii k @ 58 # 32 # iterencode l v
                      @ iterencode_dict l kvs @ ws @ 125 # rest) + 1 < n"
  shows "parse_object n acc (encode_basestring_ascii k @ 58 # 32 # iterencode l v
                      @ iterencode_dict l kvs @ ws @ 125 # rest)
         = Scanned (PDict (acc @ (k, v) # kvs)) rest"
  using assms
proof (induction kvs arbitrary: k v n acc)
  case Nil
  obtain n' where n: "n = Suc n'" using Nil.prems(4) by (cases n) auto
  let ?R = "ws @ 125 # rest"
  have f: "2 * length (iterencode l v @ ?R) < n'"
    using Nil.prems(4) n by (simp add: encode_basestring_ascii_def)
  have ne: "number_end ?R" using Nil.prems(3) by (simp add: number_end_close)
  have sk: "list_all scalar k" and sv: "json_safe v" and sc: "scans l v"
    using Nil.prems(1) by simp_all
  note e = object_entry [OF sk sv sc ne f]
  have nw: "\<not> is_whitespace 125" by (simp add: is_whitespace_def)
  have w: "skip_whitespace ?R = 125 # rest"
    using skip_whitespace_app [OF Nil.prems(3) nw] .
  have fr: "k \<notin> fst ` set acc" using Nil.prems(2) by auto
  have "parse_object (Suc n') acc (34 # concat (map escape_char k) @ 34 # 58 # 32 # iterencode l v @ ?R)
        = Scanned (PDict (PyDict_SetItem acc k v)) rest"
    using e(1) e(2) e(3) w by (rule parse_object_close)
  then show ?case using n fr by (simp add: encode_basestring_ascii_def SetItem_fresh)
next
  case (Cons kv' kvs')
  obtain k' v' where kv: "kv' = (k', v')" by (cases kv')
  obtain n' where n: "n = Suc n'" using Cons.prems(4) by (cases n) auto
  let ?T = "encode_basestring_ascii k' @ 58 # 32 # iterencode l v'
              @ iterencode_dict l kvs' @ ws @ 125 # rest"
  let ?R = "44 # newline_indent l @ ?T"
  have f: "2 * length (iterencode l v @ ?R) < n'"
    using Cons.prems(4) n by (simp add: encode_basestring_ascii_def kv)
  have ne: "number_end ?R" by (rule number_end_comma)
  have sk: "list_all scalar k" and sv: "json_safe v" and sc: "scans l v"
    using Cons.prems(1) by simp_all
  note e = object_entry [OF sk sv sc ne f]
  have w: "skip_whitespace ?R = ?R"
    by (simp add: skip_whitespace_Cons is_whitespace_def)
  have nq: "\<not> is_whitespace 34" by (simp add: is_whitespace_def)
  have w2: "skip_whitespace (newline_indent l @ ?T) = ?T"
    using skip_whitespace_app [OF ws_newline_indent nq, of l]
    by (simp add: encode_basestring_ascii_def)
  have fr: "k \<notin> fst ` set acc" using Cons.prems(2) by auto
  have step: "parse_object (Suc n') acc (34 # concat (map escape_char k) @ 34 # 58 # 32 # iterencode l v @ ?R)
        = parse_object n' (PyDict_SetItem acc k v) (skip_whitespace (newline_indent l @ ?T))"
    using e(1) e(2) e(3) w by (rule parse_object_comma)
  have ih: "parse_object n' (acc @ [(k, v)]) ?T = Scanned (PDict ((acc @ [(k, v)]) @ (k', v') # kvs')) rest"
    using Cons.prems n by (intro Cons.IH) (simp_all add: kv encode_basestring_ascii_def)
  have "parse_object (Suc n') acc (34 # concat (map escape_char k) @ 34 # 58 # 32 # iterencode l v @ ?R)
        = Scanned (PDict ((acc @ [(k, v)]) @ (k', v') # kvs')) rest"
    unfolding step w2 SetItem_fresh [OF fr] by (rule ih)
  then show ?case using n
    by (simp add: encode_basestring_ascii_def kv del: parse_object.simps)
qed

lemma scan_once_array:
  "skip_whitespace r = c # cs \<Longrightarrow> value_start c \<Longrightarrow>
   scan_once (Suc n) (91 # r) = parse_array n [] (c # cs)"
  by (simp add: value_start_def del: parse_array.simps)

lemma scan_once_object:
  "skip_whitespace r = 34 # cs \<Longrightarrow> scan_once (Suc n) (123 # r) = parse_object n [] (34 # cs)"
  by (simp del: parse_object.simps)

lemma roundtrip_scan: "json_safe v \<Longrightarrow> scans l v"
proof (induction v arbitrary: l)
  case PNone
  show ?case unfolding scans_def
  proof (intro allI impI)
    fix n rest assume "2 * length (iterencode l PNone @ rest) < n"
    then obtain n' where "n = Suc n'" by (cases n) auto
    then show "scan_once n (iterencode l PNone @ rest) = Scanned PNone rest"
      by (simp add: scan_once_null del: scan_once.simps)
  qed
next
  case (PBool b)
  show ?case unfolding scans_def
  proof (intro allI impI)
    fix n rest assume "2 * length (iterencode l (PBool b) @ rest) < n"
    then obtain n' where "n = Suc n'" by (cases n) auto
    then show "scan_once n (iterencode l (PBool b) @ rest) = Scanned (PBool b) rest"
      by (simp add: scan_once_true scan_once_false del: scan_once.simps)
  qed
next
  case (PInt i)
  show ?case unfolding scans_def
  proof (intro allI impI)
    fix n rest assume ne: "number_end rest" and "2 * length (iterencode l (PInt i) @ rest) < n"
    then obtain n' where "n = Suc n'" by (cases n) auto
    then show "scan_once n (iterencode l (PInt i) @ rest) = Scanned (PInt i) rest"
      using scan_once_int [OF ne] by (simp del: scan_once.simps)
  qed
next
  case (PFloat lit)
  then show ?case by simp
next
  case (PStr s)
  show ?case unfolding scans_def
  proof (intro allI impI)
    fix n rest assume "2 * length (iterencode l (PStr s) @ rest) < n"
    then obtain n' where "n = Suc n'" by (cases n) auto
    then show "scan_once n (iterencode l (PStr s) @ rest) = Scanned (PStr s) rest"
      using PStr scan_once_str by (simp del: scan_once.simps)
  qed
next
  case (PList xs)
  show ?case
  proof (cases xs)
    case Nil
    show ?thesis unfolding scans_def
    proof (intro allI impI)
      fix n rest assume "2 * length (iterencode l (PList xs) @ rest) < n"
      then obtain n' where "n = Suc n'" by (cases n) auto
      then show "scan_once n (iterencode l (PList xs) @ rest) = Scanned (PList xs) rest"
        by (simp add: Nil str_of_def skip_whitespace_Cons is_whitespace_def)
    qed
  next
    case (Cons y ys)
    have all: "\<forall>z\<in>set (y # ys). json_safe z \<and> scans (Suc l) z"
      using PList Cons by (auto simp: list_all_iff)
    show ?thesis unfolding scans_def
    proof (intro allI impI)
      fix n rest assume f: "2 * length (iterencode l (PList xs) @ rest) < n"
      then obtain n' where n: "n = Suc n'" by (cases n) auto
      let ?T = "iterencode (Suc l) y @ iterencode_list (Suc l) ys @ newline_indent l @ 93 # rest"
      have sy: "json_safe y" using all by simp
      from enc_first [OF sy, of "Suc l"] obtain c cs where
        e: "iterencode (Suc l) y = c # cs" and c: "value_start c" by blast
      have w: "skip_whitespace (newline_indent (Suc l) @ ?T) = ?T"
        using skip_ws_value [OF sy ws_newline_indent, of "Suc l" "Suc l"] by simp
      have p: "parse_array n' [] ?T = Scanned (PList ([] @ y # ys)) rest"
        using all ws_newline_indent
      proof (rule array_tail)
        show "2 * length ?T + 1 < n'" using f n by (simp add: Cons)
      qed
      have w': "skip_whitespace (newline_indent (Suc l) @ ?T)
                  = c # cs @ iterencode_list (Suc l) ys @ newline_indent l @ 93 # rest"
        using w by (simp only: e append_Cons)
      have "scan_once (Suc n') (91 # newline_indent (Suc l) @ ?T) = parse_array n' [] ?T"
        using scan_once_array [OF w' c, of n'] by (simp only: e append_Cons)
      then show "scan_once n (iterencode l (PList xs) @ rest) = Scanned (PList xs) rest"
        using p n by (simp add: Cons del: scan_once.simps parse_array.simps)
    qed
  qed
next
  case (PDict kvs)
  show ?case
  proof (cases kvs)
    case Nil
    show ?thesis unfolding scans_def
    proof (intro allI impI)
      fix n rest assume "2 * length (iterencode l (PDict kvs) @ rest) < n"
      then obtain n' where "n = Suc n'" by (cases n) auto
      then show "scan_once n (iterencode l (PDict kvs) @ rest) = Scanned (PDict kvs) rest"
        by (simp add: Nil str_of_def skip_whitespace_Cons is_whitespace_def)
    qed
  next
    case (Cons kv kvs')
    obtain k v where kv: "kv = (k, v)" by (cases kv)
    have all: "\<forall>z\<in>set ((k, v) # kvs'). list_all scalar (fst z) \<and> json_safe (snd z) \<and> scans (Suc l) (snd z)"
    proof
      fix z assume z: "z \<in> set ((k, v) # kvs')"
      then have zs: "z \<in> set kvs" by (simp add: Cons kv)
      have s: "list_all scalar (fst z) \<and> json_safe (snd z)"
        using PDict.prems zs by (auto simp: list_all_iff)
      have "snd z \<in> Basic_BNFs.snds z" by (cases z) simp
      then have "scans (Suc l) (snd z)" using PDict.IH zs s by blast
      then show "list_all scalar (fst z) \<and> json_safe (snd z) \<and> scans (Suc l) (snd z)"
        using s by simp
    qed
    have d: "distinct (map fst ([] @ (k, v) # kvs'))" using PDict.prems by (simp add: Cons kv)
    show ?thesis unfolding scans_def
    proof (intro allI impI)
      fix n rest assume f: "2 * length (iterencode l (PDict kvs) @ rest) < n"
      then obtain n' where n: "n = Suc n'" by (cases n) auto
      let ?T = "encode_basestring_ascii k @ 58 # 32 # iterencode (Suc l) v
                  @ iterencode_dict (Suc l) kvs' @ newline_indent l @ 125 # rest"
      have nq: "\<not> is_whitespace 34" by (simp add: is_whitespace_def)
      have w: "skip_whitespace (newline_indent (Suc l) @ ?T) = ?T"
        using skip_whitespace_app [OF ws_newline_indent nq, of "Suc l"]
        by (simp add: encode_basestring_ascii_def)
      have p: "parse_object n' [] ?T = Scanned (PDict ([] @ (k, v) # kvs')) rest"
        using all d ws_newline_indent
      proof (rule dict_tail)
        show "2 * length ?T + 1 < n'" using f n by (simp add: Cons kv)
      qed
      obtain T' where T': "?T = 34 # T'" by (simp add: encode_basestring_ascii_def)
      have "scan_once (Suc n') (123 # newline_indent (Suc l) @ ?T) = parse_object n' [] ?T"
        using scan_once_object [of "newline_indent (Suc l) @ ?T" T' n'] w by (simp only: T')
      then show "scan_once n (iterencode l (PDict kvs) @ rest) = Scanned (PDict kvs) rest"
        using p n by (simp add: Cons kv del: scan_once.simps parse_object.simps)
    qed
  qed
qed

lemma json_loads_json_dumps: "json_safe v \<Longrightarrow> json_loads (json_dumps v) = Some v"
proof -
  assume s: "json_safe v"
  from enc_first [OF s, of 0] obtain c cs where
    e: "iterencode 0 v = c # cs" and c: "value_start c" by blast
  have w: "skip_whitespace (iterencode 0 v) = iterencode 0 v"
    using c by (simp add: e skip_whitespace_Cons value_start_def)
  have "scan_once (2 * length (iterencode 0 v) + 1) (iterencode 0 v @ []) = Scanned v []"
    using roundtrip_scan [OF s, of 0] by (intro scansD) (simp_all add: number_end_def)
  then have sc: "scan_once (2 * length (iterencode 0 v) + 1) (iterencode 0 v) = Scanned v []"
    by (simp only: append_Nil2)
  show ?thesis unfolding json_loads_def json_dumps_def w sc by (simp add: skip_whitespace_def)
qed

section \<open>The stores\<close>

subsection \<open>Loading what was saved\<close>

lemma printable_hex_digit: "d < 16 \<Longrightarrow> printable (hex_digit d)"
  by (simp add: printable_def hex_digit_def)

lemma printable_hex4: "list_all printable (hex4 n)"
  by (simp add: hex4_def printable_hex_digit)

lemma printable_u_escape: "list_all printable (u_escape n)"
  by (simp add: u_escape_def printable_hex4) (simp add: printable_def)

lemma printable_escape_char: "list_all printable (escape_char c)"
  by (simp add: escape_char_def printable_u_escape) (simp add: printable_def)

lemma printable_string: "list_all printable (encode_basestring_ascii s)"
proof -
  have "list_all printable (concat (map escape_char s))"
    by (induction s) (simp_all add: printable_escape_char)
  then show ?thesis by (simp add: encode_basestring_ascii_def printable_def)
qed

lemma printable_digit: "is_digit c \<Longrightarrow> printable c"
  by (simp add: is_digit_def printable_def)

lemma printable_int_repr: "list_all printable (int_repr i)"
proof -
  have "list_all printable (nat_repr n)" for n
    using nat_repr_digits [of n] printable_digit by (auto simp: list_all_iff)
  then show ?thesis by (simp add: int_repr_def printable_def)
qed

lemma printable_newline_indent: "list_all printable (newline_indent l)"
  by (simp add: newline_indent_def list_all_iff printable_def)

lemma printable_items:
  "\<forall>x\<in>set xs. list_all printable (iterencode l x) \<Longrightarrow>
   list_all printable (iterencode_list l xs)"
  by (induction xs) (simp_all add: printable_newline_indent printable_def)

lemma printable_pairs:
  "\<forall>kv\<in>set kvs. list_all printable (iterencode l (snd kv)) \<Longrightarrow>
   list_all printable (iterencode_dict l kvs)"
proof (induction kvs)
  case Nil
  then show ?case by simp
next
  case (Cons kv kvs)
  obtain k v where kv: "kv = (k, v)" by (cases kv)
  have "printable 44" "printable 58" "printable 32" by (simp_all add: printable_def)
  then show ?case using Cons
    by (simp add: kv printable_newline_indent printable_string)
qed

lemma printable_iterencode: "json_safe v \<Longrightarrow> list_all printable (iterencode l v)"
proof (induction v arbitrary: l)
  case PNone
  show ?case by (simp add: str_of_def printable_def)
next
  case (PBool b)
  show ?case by (simp add: str_of_def printable_def)
next
  case (PInt i)
  show ?case by (simp add: printable_int_repr)
next
  case (PFloat lit)
  then show ?case by simp
next
  case (PStr s)
  show ?case by (simp add: printable_string)
next
  case (PList xs)
  have b: "printable 91" "printable 93" by (simp_all add: printable_def)
  show ?case
  proof (cases xs)
    case Nil
    then show ?thesis using b by (simp add: str_of_def)
  next
    case (Cons y ys)
    have all: "\<forall>x\<in>set xs. list_all printable (iterencode (Suc l) x)"
      using PList by (auto simp: list_all_iff)
    then have "list_all printable (iterencode (Suc l) y)"
      and "list_all printable (iterencode_list (Suc l) ys)"
      using printable_items [of ys "Suc l"] by (simp_all add: Cons)
    then show ?thesis using b by (simp add: Cons printable_newline_indent)
  qed
next
  case (PDict kvs)
  have b: "printable 123" "printable 125" "printable 58" "printable 32"
    by (simp_all add: printable_def)
  show ?case
  proof (cases kvs)
    case Nil
    then show ?thesis using b by (simp add: str_of_def)
  next
    case (Cons kv kvs')
    obtain k v where kv: "kv = (k, v)" by (cases kv)
    have all: "\<forall>z\<in>set kvs. list_all printable (iterencode (Suc l) (snd z))"
    proof
      fix z assume z: "z \<in> set kvs"
      then have s: "json_safe (snd z)" using PDict.prems by (auto simp: list_all_iff)
      have "snd z \<in> Basic_BNFs.snds z" by (cases z) simp
      then show "list_all printable (iterencode (Suc l) (snd z))" using PDict.IH z s by blast
    qed
    then have "list_all printable (iterencode (Suc l) v)"
      and "list_all printable (iterencode_dict (Suc l) kvs')"
      using printable_pairs [of kvs' "Suc l"] by (simp_all add: Cons kv)
    then show ?thesis using b
      by (simp add: Cons kv printable_newline_indent printable_string)
  qed
qed

lemma utf8_printable:
  "list_all printable t \<Longrightarrow>
   utf8_encode t = t \<and> utf8_decode t = Some t \<and> universal_newlines t = t"
  by (induction t) (auto simp: utf8_encode_def utf8_char_def printable_def)

lemma read_back:
  assumes "json_safe v"
  shows "utf8_decode (utf8_encode (json_dumps v)) = Some (json_dumps v)"
    and "json_loads (universal_newlines (json_dumps v)) = Some v"
proof -
  have p: "list_all printable (json_dumps v)"
    unfolding json_dumps_def using assms by (rule printable_iterencode)
  show "utf8_decode (utf8_encode (json_dumps v)) = Some (json_dumps v)"
    using utf8_printable [OF p] by simp
  show "json_loads (universal_newlines (json_dumps v)) = Some v"
    using utf8_printable [OF p] json_loads_json_dumps [OF assms] by simp
qed

lemma load_after_save: "json_safe v \<Longrightarrow> data_loader (data_saver fs p v) p = Inr v"
  by (simp add: data_loader_def data_saver_def read_back)

lemma small_convertible: "- 10 < i \<Longrightarrow> i < 10 \<Longrightarrow> convertible i"
proof -
  assume a: "- 10 < i" "i < 10"
  have "(10::int) ^ 1 \<le> 10 ^ max_str_digits"
    by (rule power_increasing) (simp_all add: max_str_digits_def)
  then show ?thesis using a by (simp add: convertible_def)
qed

lemma scalar_ascii: "c < 128 \<Longrightarrow> scalar c"
  by (simp add: scalar_def)

lemma validator_class_scalar: "validator_class c \<Longrightarrow> scalar c"
  by (auto simp: class_defs scalar_def str_of_def)

lemma run0_nth: "i < run P s 0 \<Longrightarrow> P (s ! i)"
proof -
  assume i: "i < run P s 0"
  then have l: "i < length (takeWhile P s)" by (simp add: run_def)
  then have "takeWhile P s ! i \<in> set (takeWhile P s)" by (rule nth_mem)
  then have "P (takeWhile P s ! i)" by (rule set_takeWhileD [THEN conjunct2])
  then show ?thesis using takeWhile_nth [OF l] by simp
qed

lemma nth_last: "Suc k = length p \<Longrightarrow> p ! k = c \<Longrightarrow> p ! (length p - Suc 0) = c"
proof -
  assume a: "Suc k = length p" and b: "p ! k = c"
  from a have "length p - Suc 0 = k" by arith
  then show ?thesis using b by simp
qed

lemma validator_end:
  "password_validator p \<Longrightarrow>
   length p \<le> run validator_class p 0
   \<or> (length p \<le> Suc (run validator_class p 0) \<and> p ! (length p - 1) = 10)"
  by (auto simp: password_validator_def re_match_def password_regex_pattern_def list_ex_iff
      intro: nth_last)

lemma validator_scalar: "password_validator p \<Longrightarrow> list_all scalar p"
proof -
  assume "password_validator p"
  from validator_end [OF this]
  have e: "length p \<le> run validator_class p 0
           \<or> (length p \<le> Suc (run validator_class p 0) \<and> p ! (length p - 1) = 10)" .
  have "scalar (p ! i)" if "i < length p" for i
  proof (cases "i < run validator_class p 0")
    case True
    then have "validator_class (p ! i)" by (rule run0_nth [of i validator_class p])
    then show ?thesis by (rule validator_class_scalar)
  next
    case False
    then have "i = length p - 1 \<and> p ! (length p - 1) = 10" using e that by auto
    then show ?thesis by (simp add: scalar_def)
  qed
  then show ?thesis by (simp add: list_all_length)
qed

lemma evaluator_safe:
  "list_all scalar (rank (password_evaluator p))
   \<and> list_all (list_all scalar) (feedback (password_evaluator p))
   \<and> - 10 < score (password_evaluator p) \<and> score (password_evaluator p) < 10"
  by (simp add: password_evaluator_def check_defs password_strength_ranking_def
      feedback_defs str_of_def scalar_def)

lemma password_record_safe: "list_all scalar p \<Longrightarrow> json_safe (password_record p)"
  using evaluator_safe [of p]
  by (simp add: password_record_def Let_def str_of_def scalar_def list_all_iff small_convertible)

subsection \<open>The loop over the history\<close>

lemma loop_repeated:
  "list_all has_password xs \<Longrightarrow>
   list_ex (\<lambda>entry. py_getitem entry (str_of ''password'') = Inr (PStr p)) xs \<Longrightarrow>
   check_repeated_loop xs p = Inr (False, recently_used_message)"
  by (induction xs) (auto simp: has_password_def split: sum.splits)

lemma loop_unique:
  "list_all (other_password p) xs \<Longrightarrow> check_repeated_loop xs p = Inr (True, unique_message)"
  by (induction xs) (auto simp: other_password_def split: sum.splits)

lemma loop_result:
  "check_repeated_loop xs p = Inr (u, m) \<Longrightarrow>
   (if u then list_all (other_password p) xs else m = recently_used_message)"
  by (induction xs) (auto simp: other_password_def split: sum.splits if_splits)

lemma other_has: "other_password p entry \<Longrightarrow> has_password entry"
  by (simp add: other_password_def has_password_def split: sum.splits)

lemma record_password:
  "py_getitem (password_record p) (str_of ''password'') = Inr (PStr p)"
  by (simp add: password_record_def Let_def py_getitem_def)

lemma record_other: "p \<noteq> q \<Longrightarrow> other_password q (password_record p)"
  by (simp add: other_password_def record_password)

lemma add_password_list:
  "data_loader fs PASSWORDS_FILE = Inr (PList xs) \<Longrightarrow>
   add_password fs p =
     (case check_repeated_loop xs p of
        Inl e \<Rightarrow> Inl e
      | Inr (u, m) \<Rightarrow>
          if \<not> u then Inr (m, fs)
          else if \<not> password_validator p then Inr (criteria_message, fs)
          else Inr (add_success_message,
                    data_saver fs PASSWORDS_FILE
                      (PList (maintain_last_five (xs @ [password_record p])))))"
  by (simp add: add_password_def check_repeated_password_def py_iter_def
      split: sum.splits prod.splits)

lemma add_password_error:
  "data_loader fs PASSWORDS_FILE = Inl e \<Longrightarrow> add_password fs p = Inl e"
  by (simp add: add_password_def)

lemma messages_differ:
  "recently_used_message \<noteq> add_success_message" "criteria_message \<noteq> add_success_message"
  by (simp_all add: recently_used_message_def add_success_message_def criteria_message_def
      cross_mark_def check_mark_def)

lemma add_password_unique:
  assumes "data_loader fs PASSWORDS_FILE = Inr (PList xs)" "list_all (other_password p) xs"
    "password_validator p"
  shows "add_password fs p =
           Inr (add_success_message,
                data_saver fs PASSWORDS_FILE
                  (PList (maintain_last_five (xs @ [password_record p]))))"
  using assms by (simp add: add_password_list loop_unique)

lemma add_password_success:
  assumes "add_password fs p = Inr (add_success_message, fs')"
  shows "\<exists>xs. data_loader fs PASSWORDS_FILE = Inr (PList xs) \<and> list_all (other_password p) xs
              \<and> password_validator p
              \<and> fs' = data_saver fs PASSWORDS_FILE
                        (PList (maintain_last_five (xs @ [password_record p])))"
proof (cases "data_loader fs PASSWORDS_FILE")
  case (Inl e)
  then show ?thesis using assms by (simp add: add_password_error)
next
  case (Inr loaded)
  show ?thesis
  proof (cases loaded)
  case (PList xs)
  note PList = Inr [unfolded this]
  show ?thesis
  proof (cases "check_repeated_loop xs p")
    case (Inl e)
    then show ?thesis using assms by (simp add: add_password_list [OF PList])
  next
    case (Inr r)
    obtain u m where r: "r = (u, m)" by (cases r)
    from loop_result [of xs p u m] Inr r
    have l: "if u then list_all (other_password p) xs else m = recently_used_message" by simp
    show ?thesis
    proof (cases u)
      case True
      then show ?thesis using assms l Inr r PList messages_differ
        by (auto simp: add_password_list [OF PList] split: if_splits)
    next
      case False
      then show ?thesis using assms l Inr r messages_differ
        by (auto simp: add_password_list [OF PList])
    qed
  qed
next
  case (PDict kvs)
  note PDict = Inr [unfolded this]
  show ?thesis
  proof (cases "check_repeated_loop (map (\<lambda>kv. PStr (fst kv)) kvs) p")
    case (Inl e)
    then show ?thesis using assms PDict
      by (simp add: add_password_def check_repeated_password_def py_iter_def)
  next
    case (Inr r)
    obtain u m where r: "r = (u, m)" by (cases r)
    from loop_result [of "map (\<lambda>kv. PStr (fst kv)) kvs" p u m] Inr r
    have l: "\<not> u \<Longrightarrow> m = recently_used_message" by simp
    show ?thesis using assms PDict Inr r l messages_differ
      by (auto simp: add_password_def check_repeated_password_def py_iter_def split: if_splits)
  qed
next
  case (PStr s)
  note PStr = Inr [unfolded this]
  show ?thesis
  proof (cases "check_repeated_loop (map (\<lambda>c. PStr [c]) s) p")
    case (Inl e)
    then show ?thesis using assms PStr
      by (simp add: add_password_def check_repeated_password_def py_iter_def)
  next
    case (Inr r)
    obtain u m where r: "r = (u, m)" by (cases r)
    from loop_result [of "map (\<lambda>c. PStr [c]) s" p u m] Inr r
    have l: "\<not> u \<Longrightarrow> m = recently_used_message" by simp
    show ?thesis using assms PStr Inr r l messages_differ
      by (auto simp: add_password_def check_repeated_password_def py_iter_def split: if_splits)
  qed
  qed (use assms Inr in \<open>simp_all add: add_password_def check_repeated_password_def py_iter_def\<close>)
qed

lemma maintain_subset: "set (maintain_last_five xs) \<subseteq> set xs"
  by (cases xs) (auto simp: maintain_last_five_def)

lemma maintain_all: "list_all P xs \<Longrightarrow> list_all P (maintain_last_five xs)"
  using maintain_subset [of xs] by (auto simp: list_all_iff)

lemma maintain_snoc:
  "\<exists>zs. maintain_last_five (xs @ [x]) = zs @ [x] \<and> set zs \<subseteq> set xs"
proof (cases xs)
  case Nil
  then show ?thesis by (simp add: maintain_last_five_def)
next
  case (Cons y ys)
  then show ?thesis by (auto simp: maintain_last_five_def)
qed


subsection \<open>Adding one password after the other\<close>

lemma last_five:
  "length h \<le> 5 \<Longrightarrow>
   foldl (\<lambda>h p. maintain_last_five (h @ [f p])) h ps
     = drop (length h + length ps - 5) (h @ map f ps)"
proof (induction ps arbitrary: h)
  case Nil
  then show ?case by simp
next
  case (Cons p ps)
  let ?h = "maintain_last_five (h @ [f p])"
  show ?case
  proof (cases "length h = 5")
    case True
    then obtain a h' where hh: "h = a # h'" and l': "length h' = 4" by (cases h) auto
    have "foldl (\<lambda>h p. maintain_last_five (h @ [f p])) (h' @ [f p]) ps
          = drop (length (h' @ [f p]) + length ps - 5) ((h' @ [f p]) @ map f ps)"
      by (intro Cons.IH) (simp add: l')
    then show ?thesis by (simp add: maintain_last_five_def hh l')
  next
    case False
    then have h: "?h = h @ [f p]" using Cons.prems by (simp add: maintain_last_five_def)
    have "foldl (\<lambda>h p. maintain_last_five (h @ [f p])) ?h ps
          = drop (length ?h + length ps - 5) (?h @ map f ps)"
      using False Cons.prems by (intro Cons.IH) (simp add: h)
    then show ?thesis by (simp add: h)
  qed
qed

lemma six_leave_five:
  assumes "length h \<le> 5" "length ps = 6"
  shows "foldl (\<lambda>h p. maintain_last_five (h @ [f p])) h ps = map f (tl ps)"
proof -
  have "drop (length h + length ps - 5) (h @ map f ps) = drop 1 (map f ps)"
    using assms by simp
  also have "\<dots> = map f (tl ps)" by (simp add: drop_Suc map_tl)
  finally show ?thesis using last_five [OF assms(1), of f ps] by simp
qed

lemma add_passwords_chain:
  assumes "data_loader fs PASSWORDS_FILE = Inr (PList history)"
    and "json_safe (PList history)"
    and "list_all (\<lambda>q. list_all (other_password q) history) ps"
    and "distinct ps"
    and "list_all password_validator ps"
  shows "\<exists>fs'. add_passwords fs ps = Inr (map (\<lambda>p. add_success_message) ps, fs')
           \<and> data_loader fs' PASSWORDS_FILE
               = Inr (PList (foldl (\<lambda>h p. maintain_last_five (h @ [password_record p])) history ps))"
  using assms
proof (induction ps arbitrary: fs history)
  case Nil
  then show ?case by simp
next
  case (Cons p ps)
  let ?h = "maintain_last_five (history @ [password_record p])"
  let ?fs = "data_saver fs PASSWORDS_FILE (PList ?h)"
  have v: "password_validator p" using Cons.prems(5) by simp
  have a: "add_password fs p = Inr (add_success_message, ?fs)"
    using Cons.prems(1,3) v by (intro add_password_unique) simp_all
  have sr: "json_safe (password_record p)"
    using v by (intro password_record_safe validator_scalar)
  have sh: "json_safe (PList ?h)"
    using Cons.prems(2) sr by (simp add: maintain_all)
  have ld: "data_loader ?fs PASSWORDS_FILE = Inr (PList ?h)"
    using sh by (rule load_after_save)
  have fr: "list_all (\<lambda>q. list_all (other_password q) ?h) ps"
  proof -
    have "list_all (other_password q) ?h" if q: "q \<in> set ps" for q
    proof -
      have "list_all (other_password q) history"
        using Cons.prems(3) q by (simp add: list_all_iff)
      moreover have "p \<noteq> q" using Cons.prems(4) q by auto
      ultimately have "list_all (other_password q) (history @ [password_record p])"
        by (simp add: record_other)
      then show ?thesis by (rule maintain_all)
    qed
    then show ?thesis by (simp add: list_all_iff)
  qed
  from Cons.IH [OF ld sh fr] Cons.prems(4,5)
  obtain fs' where r: "add_passwords ?fs ps = Inr (map (\<lambda>p. add_success_message) ps, fs')"
    and l: "data_loader fs' PASSWORDS_FILE
              = Inr (PList (foldl (\<lambda>h p. maintain_last_five (h @ [password_record p])) ?h ps))"
    by auto
  show ?case using a r l by simp
qed

text \<open>
  Claim C3.  When the history is a list none of whose entries has the password, and
  the validator accepts the password, \<open>add_password\<close> returns the success message and
  saves the history with the record of the password, its score, its rank and its
  feedback appended, and with the first entry removed if that makes more than 5.
  Consequently, on a history of at most 5 entries, six different valid passwords that
  are not in the history, added one after the other, are all accepted and leave the
  records of the last five of them, in the order they were added.
\<close>

theorem add_password_appends_and_keeps_five:
  "(data_loader fs PASSWORDS_FILE = Inr (PList history) \<and> list_all (other_password p) history
      \<and> password_validator p
    \<longrightarrow> add_password fs p =
          Inr (add_success_message,
               data_saver fs PASSWORDS_FILE
                 (PList (if length (history @ [password_record p]) > 5
                         then tl (history @ [password_record p])
                         else history @ [password_record p])))
        \<and> password_record p =
            PDict [(str_of ''password'', PStr p),
                   (str_of ''score'', PInt (score (password_evaluator p))),
                   (str_of ''rank'', PStr (rank (password_evaluator p))),
                   (str_of ''feedback'', PList (map PStr (feedback (password_evaluator p))))])
   \<and> (data_loader fs PASSWORDS_FILE = Inr (PList history) \<and> json_safe (PList history)
        \<and> length history \<le> 5
        \<and> list_all (\<lambda>q. list_all (other_password q) history) ps
        \<and> distinct ps \<and> list_all password_validator ps \<and> length ps = 6
      \<longrightarrow> (\<exists>fs'. add_passwords fs ps = Inr (replicate 6 add_success_message, fs')
                 \<and> data_loader fs' PASSWORDS_FILE = Inr (PList (map password_record (tl ps)))))"
proof (intro conjI impI)
  assume h: "data_loader fs PASSWORDS_FILE = Inr (PList history) \<and> list_all (other_password p) history
      \<and> password_validator p"
  then show "add_password fs p =
          Inr (add_success_message,
               data_saver fs PASSWORDS_FILE
                 (PList (if length (history @ [password_record p]) > 5
                         then tl (history @ [password_record p])
                         else history @ [password_record p])))"
    using add_password_unique [of fs history p] by (simp add: maintain_last_five_def)
next
  show "password_record p =
            PDict [(str_of ''password'', PStr p),
                   (str_of ''score'', PInt (score (password_evaluator p))),
                   (str_of ''rank'', PStr (rank (password_evaluator p))),
                   (str_of ''feedback'', PList (map PStr (feedback (password_evaluator p))))]"
    by (simp add: password_record_def Let_def)
next
  assume h: "data_loader fs PASSWORDS_FILE = Inr (PList history) \<and> json_safe (PList history)
        \<and> length history \<le> 5
        \<and> list_all (\<lambda>q. list_all (other_password q) history) ps
        \<and> distinct ps \<and> list_all password_validator ps \<and> length ps = 6"
  then have "\<exists>fs'. add_passwords fs ps = Inr (map (\<lambda>p. add_success_message) ps, fs')
           \<and> data_loader fs' PASSWORDS_FILE
               = Inr (PList (foldl (\<lambda>h p. maintain_last_five (h @ [password_record p])) history ps))"
    by (intro add_passwords_chain) simp_all
  moreover have "foldl (\<lambda>h p. maintain_last_five (h @ [password_record p])) history ps
                 = map password_record (tl ps)"
    using h by (intro six_leave_five) simp_all
  moreover have "map (\<lambda>p. add_success_message) ps = replicate 6 add_success_message"
    using h by (simp add: map_replicate_const)
  ultimately show "\<exists>fs'. add_passwords fs ps = Inr (replicate 6 add_success_message, fs')
                 \<and> data_loader fs' PASSWORDS_FILE = Inr (PList (map password_record (tl ps)))"
    by simp
qed

lemma valid_examples:
  "list_all password_validator
     [str_of ''Secure@1'', str_of ''Secure@2'', str_of ''Secure@3'', str_of ''Secure@4'',
      str_of ''Secure@5'', str_of ''Secure@6'']"
  by (simp add: password_validator_def re_match_def password_regex_pattern_def str_of_def
      run_def class_defs)

lemma empty_history: "data_loader Map.empty PASSWORDS_FILE = Inr (PList [])"
  by (simp add: data_loader_def)

theorem add_password_appends_and_keeps_five_witness:
  "\<exists>fs'. add_passwords Map.empty
            [str_of ''Secure@1'', str_of ''Secure@2'', str_of ''Secure@3'', str_of ''Secure@4'',
             str_of ''Secure@5'', str_of ''Secure@6'']
          = Inr (replicate 6 add_success_message, fs')
        \<and> data_loader fs' PASSWORDS_FILE
            = Inr (PList (map password_record
                [str_of ''Secure@2'', str_of ''Secure@3'', str_of ''Secure@4'',
                 str_of ''Secure@5'', str_of ''Secure@6'']))"
proof -
  have d: "distinct [str_of ''Secure@1'', str_of ''Secure@2'', str_of ''Secure@3'',
      str_of ''Secure@4'', str_of ''Secure@5'', str_of ''Secure@6'']"
    by (simp add: str_of_def)
  show ?thesis
    using add_password_appends_and_keeps_five [of Map.empty "[]" "[]"
        "[str_of ''Secure@1'', str_of ''Secure@2'', str_of ''Secure@3'', str_of ''Secure@4'',
          str_of ''Secure@5'', str_of ''Secure@6'']"]
      valid_examples d empty_history
    by simp
qed

subsection \<open>The bound on the history\<close>


lemma valid_example: "password_validator (str_of ''Secure@123'')"
  by (simp add: password_validator_def re_match_def password_regex_pattern_def str_of_def
      run_def class_defs)



subsection \<open>A password that is in the history\<close>

text \<open>
  Claim C5.  When the history is a list of entries that each have a password, and one
  of them has exactly the password given, \<open>add_password\<close> returns the message that the
  password was recently used and leaves every file as it was.  So when \<open>add_password\<close>
  has accepted a password, on a history that is read back as written, a second call
  with the same password on the files the first one left is rejected with that
  message and leaves them as they are.
\<close>

theorem add_password_rejects_repeated:
  "(data_loader fs PASSWORDS_FILE = Inr (PList history) \<and> list_all has_password history
      \<and> list_ex (\<lambda>entry. py_getitem entry (str_of ''password'') = Inr (PStr p)) history
    \<longrightarrow> add_password fs p = Inr (recently_used_message, fs))
   \<and> (add_password fs p = Inr (add_success_message, fs')
        \<and> data_loader fs PASSWORDS_FILE = Inr stored \<and> json_safe stored
      \<longrightarrow> add_password fs' p = Inr (recently_used_message, fs'))"
proof (intro conjI impI)
  assume "data_loader fs PASSWORDS_FILE = Inr (PList history) \<and> list_all has_password history
      \<and> list_ex (\<lambda>entry. py_getitem entry (str_of ''password'') = Inr (PStr p)) history"
  then show "add_password fs p = Inr (recently_used_message, fs)"
    by (simp add: add_password_list loop_repeated)
next
  assume h: "add_password fs p = Inr (add_success_message, fs')
        \<and> data_loader fs PASSWORDS_FILE = Inr stored \<and> json_safe stored"
  from add_password_success [of fs p fs'] h obtain xs where
    x: "data_loader fs PASSWORDS_FILE = Inr (PList xs)" and o: "list_all (other_password p) xs"
    and v: "password_validator p"
    and f: "fs' = data_saver fs PASSWORDS_FILE
                    (PList (maintain_last_five (xs @ [password_record p])))"
    by auto
  let ?h = "maintain_last_five (xs @ [password_record p])"
  have sr: "json_safe (password_record p)"
    using v by (intro password_record_safe validator_scalar)
  have st: "stored = PList xs" using h x by simp
  have "list_all json_safe xs" using h st by simp
  then have "json_safe (PList ?h)" using sr by (simp add: maintain_all)
  then have l: "data_loader fs' PASSWORDS_FILE = Inr (PList ?h)"
    unfolding f by (rule load_after_save)
  have "has_password (password_record p)" by (simp add: has_password_def record_password)
  moreover have "list_all has_password xs" using o other_has by (auto simp: list_all_iff)
  ultimately have hp: "list_all has_password (xs @ [password_record p])" by simp
  have a: "list_all has_password ?h" using hp by (rule maintain_all)
  from maintain_snoc [of xs "password_record p"] obtain zs where
    "?h = zs @ [password_record p]" by blast
  then have e: "list_ex (\<lambda>entry. py_getitem entry (str_of ''password'') = Inr (PStr p)) ?h"
    by (simp add: record_password)
  show "add_password fs' p = Inr (recently_used_message, fs')"
    using a e by (simp add: add_password_list [OF l] loop_repeated)
qed

theorem add_password_rejects_repeated_witness:
  "add_password
     (data_saver Map.empty PASSWORDS_FILE
        (PList (maintain_last_five ([] @ [password_record (str_of ''Secure@123'')]))))
     (str_of ''Secure@123'')
   = Inr (recently_used_message,
          data_saver Map.empty PASSWORDS_FILE
            (PList (maintain_last_five ([] @ [password_record (str_of ''Secure@123'')]))))"
proof -
  have a: "add_password Map.empty (str_of ''Secure@123'')
           = Inr (add_success_message,
                  data_saver Map.empty PASSWORDS_FILE
                    (PList (maintain_last_five ([] @ [password_record (str_of ''Secure@123'')]))))"
    using empty_history valid_example by (intro add_password_unique) simp_all
  show ?thesis
    using add_password_rejects_repeated [of Map.empty "[]" "str_of ''Secure@123''"
        "data_saver Map.empty PASSWORDS_FILE
           (PList (maintain_last_five ([] @ [password_record (str_of ''Secure@123'')])))"
        "PList []"]
      a empty_history
    by simp
qed

subsection \<open>The link store\<close>

lemma link_loop:
  "list_all is_link xs \<Longrightarrow>
   store_link_loop xs site username = Inr (list_ex (link_taken site username) xs)"
  by (induction xs) (auto simp: is_link_def link_taken_def split: sum.splits)

text \<open>
  Claim C6.  When the link store is a list of entries that each have a site and a
  username, \<open>store_link\<close> of a site and a username that an entry has, both exactly,
  returns the message that a password is already stored and leaves every file as it
  was; of any other site and username it returns the success message and saves the
  store with the record of the site, the username, the password and the score and the
  rank of the password appended, whatever the password: the empty password, which the
  validator rejects, is stored like any other.
\<close>

theorem store_link_rejects_stored_pair:
  "(data_loader fs LINKS_FILE = Inr (PList links) \<and> list_all is_link links
    \<longrightarrow> store_link fs site username password =
          (if list_ex (link_taken site username) links
           then Inr (duplicate_link_message, fs)
           else Inr (link_success_message,
                     data_saver fs LINKS_FILE
                       (PList (links @ [link_record site username password])))))
   \<and> link_record site username password =
       PDict [(str_of ''site'', PStr site),
              (str_of ''username'', PStr username),
              (str_of ''password'', PStr password),
              (str_of ''score'', PInt (score (password_evaluator password))),
              (str_of ''rank'', PStr (rank (password_evaluator password)))]
   \<and> \<not> password_validator []
   \<and> store_link Map.empty site username []
       = Inr (link_success_message,
              data_saver Map.empty LINKS_FILE (PList [link_record site username []]))"
proof (intro conjI impI)
  assume "data_loader fs LINKS_FILE = Inr (PList links) \<and> list_all is_link links"
  then show "store_link fs site username password =
          (if list_ex (link_taken site username) links
           then Inr (duplicate_link_message, fs)
           else Inr (link_success_message,
                     data_saver fs LINKS_FILE
                       (PList (links @ [link_record site username password]))))"
    by (simp add: store_link_def py_iter_def link_loop)
next
  show "link_record site username password =
       PDict [(str_of ''site'', PStr site),
              (str_of ''username'', PStr username),
              (str_of ''password'', PStr password),
              (str_of ''score'', PInt (score (password_evaluator password))),
              (str_of ''rank'', PStr (rank (password_evaluator password)))]"
    by (simp add: link_record_def Let_def)
next
  show "\<not> password_validator []"
    by (simp add: password_validator_def re_match_def password_regex_pattern_def run_def)
next
  show "store_link Map.empty site username []
       = Inr (link_success_message,
              data_saver Map.empty LINKS_FILE (PList [link_record site username []]))"
    by (simp add: store_link_def py_iter_def data_loader_def)
qed

theorem store_link_rejects_stored_pair_witness:
  "store_link
     (data_saver Map.empty LINKS_FILE
        (PList [PDict [(str_of ''site'', PStr (str_of ''example.com'')),
                       (str_of ''username'', PStr (str_of ''user123'')),
                       (str_of ''password'', PStr (str_of ''Secure@123'')),
                       (str_of ''score'', PInt 4),
                       (str_of ''rank'', PStr (str_of ''Excellent''))]]))
     (str_of ''example.com'') (str_of ''user123'') (str_of ''another'')
   = Inr (duplicate_link_message,
          data_saver Map.empty LINKS_FILE
            (PList [PDict [(str_of ''site'', PStr (str_of ''example.com'')),
                           (str_of ''username'', PStr (str_of ''user123'')),
                           (str_of ''password'', PStr (str_of ''Secure@123'')),
                           (str_of ''score'', PInt 4),
                           (str_of ''rank'', PStr (str_of ''Excellent''))]]))"
proof -
  let ?links = "[PDict [(str_of ''site'', PStr (str_of ''example.com'')),
                       (str_of ''username'', PStr (str_of ''user123'')),
                       (str_of ''password'', PStr (str_of ''Secure@123'')),
                       (str_of ''score'', PInt 4),
                       (str_of ''rank'', PStr (str_of ''Excellent''))]]"
  have s: "json_safe (PList ?links)" by (simp add: str_of_def scalar_def small_convertible)
  have l: "data_loader (data_saver Map.empty LINKS_FILE (PList ?links)) LINKS_FILE = Inr (PList ?links)"
    using s by (rule load_after_save)
  have w: "list_all is_link ?links" by (simp add: is_link_def py_getitem_def str_of_def)
  have t: "list_ex (link_taken (str_of ''example.com'') (str_of ''user123'')) ?links"
    by (simp add: link_taken_def py_getitem_def str_of_def)
  show ?thesis
    using store_link_rejects_stored_pair
      [of "data_saver Map.empty LINKS_FILE (PList ?links)" ?links
          "str_of ''example.com''" "str_of ''user123''" "str_of ''another''"]
      l w t
    by simp
qed

subsection \<open>Loading\<close>

lemma broken_object: "scan_once (Suc (Suc n)) (123 # 98 # r) = Invalid"
  by (simp add: skip_whitespace_def is_whitespace_def)

text \<open>
  Claim C7 says that \<open>data_loader\<close> returns the empty list whenever the file does not
  exist or its content does not parse, and never lets an error reach the caller.  It
  does so for a path that does not exist and for a text that \<^verbatim>\<open>json.load\<close> rejects, such
  as \<^verbatim>\<open>{broken\<close>.  But a file whose bytes are not valid UTF-8, such as the single byte
  \<^verbatim>\<open>0xFF\<close>, is refused when \<^verbatim>\<open>json.load\<close> reads it, with \<^verbatim>\<open>UnicodeDecodeError\<close>, which is not
  a \<^verbatim>\<open>json.JSONDecodeError\<close>: \<open>data_loader\<close> does not catch it, and \<open>add_password\<close>, which
  starts by loading the history, fails with it.
\<close>

theorem data_loader_raises_on_undecodable_file:
  "utf8_decode [0xFF] = None
   \<and> data_loader [PASSWORDS_FILE \<mapsto> [0xFF]] PASSWORDS_FILE = Inl UnicodeDecodeError
   \<and> add_password [PASSWORDS_FILE \<mapsto> [0xFF]] (str_of ''Secure@123'') = Inl UnicodeDecodeError
   \<and> data_loader Map.empty PASSWORDS_FILE = Inr (PList [])
   \<and> data_loader [PASSWORDS_FILE \<mapsto> utf8_encode (str_of ''{broken'')] PASSWORDS_FILE
       = Inr (PList [])"
proof -
  have d: "data_loader [PASSWORDS_FILE \<mapsto> [0xFF]] PASSWORDS_FILE = Inl UnicodeDecodeError"
    by (simp add: data_loader_def)
  have t: "utf8_decode (utf8_encode (str_of ''{broken'')) = Some (str_of ''{broken'')"
    and u: "universal_newlines (str_of ''{broken'') = str_of ''{broken''"
    by (simp_all add: str_of_def utf8_encode_def utf8_char_def)
  have f: "2 * length (str_of ''{broken'') + 1 = Suc (Suc 13)" by (simp add: str_of_def)
  have s: "skip_whitespace (str_of ''{broken'') = 123 # 98 # str_of ''roken''"
    by (simp add: str_of_def skip_whitespace_def is_whitespace_def)
  have b: "scan_once (Suc (Suc 13)) (123 # 98 # str_of ''roken'') = Invalid"
    by (rule broken_object)
  have j: "json_loads (str_of ''{broken'') = None"
    unfolding json_loads_def f s b by simp
  show ?thesis
    using d by (simp add: add_password_error) (simp add: data_loader_def t u j)
qed

text \<open>
  Claim C8.  A value without floating-point numbers, whose integers are within the
  limit of 4300 digits, whose strings are sequences of Unicode scalar values and
  whose dictionaries have no key twice, saved to a path and loaded from it, is loaded
  as it was saved.
\<close>

theorem save_then_load_returns_the_collection:
  "json_safe X \<Longrightarrow> data_loader (data_saver fs file_path X) file_path = Inr X"
  by (simp add: data_loader_def data_saver_def read_back)

theorem save_then_load_returns_the_collection_witness:
  "data_loader
     (data_saver Map.empty PASSWORDS_FILE
        (PList [PDict [(str_of ''password'', PStr (str_of ''Secure@123'')),
                       (str_of ''score'', PInt 4),
                       (str_of ''rank'', PStr (str_of ''Excellent'')),
                       (str_of ''feedback'', PList [])]]))
     PASSWORDS_FILE
   = Inr (PList [PDict [(str_of ''password'', PStr (str_of ''Secure@123'')),
                   (str_of ''score'', PInt 4),
                   (str_of ''rank'', PStr (str_of ''Excellent'')),
                   (str_of ''feedback'', PList [])]])"
  using save_then_load_returns_the_collection
    [of "PList [PDict [(str_of ''password'', PStr (str_of ''Secure@123'')),
                       (str_of ''score'', PInt 4),
                       (str_of ''rank'', PStr (str_of ''Excellent'')),
                       (str_of ''feedback'', PList [])]]" Map.empty PASSWORDS_FILE]
  by (simp add: str_of_def scalar_def small_convertible)

end
